theory Spec2Isabelle
  imports Main
begin

section \<open>C strings and the argument store\<close>

text \<open>
  An argument of the process lives in a byte buffer: the characters of the argument, the
  terminating NUL byte, and whatever bytes follow.  The library keeps a pointer to the
  vector of these buffers (\<open>args__argv\<close>) and its length (\<open>args__argc\<close>); the store is
  modelled as the list of the buffers, \<open>args__argc\<close> being its length.  The static
  variables are zero before \<open>args_parse\<close> runs, so the store that was never initialised
  is the empty list.
\<close>

type_synonym buf = "char list"

type_synonym store = "buf list"

definition NUL :: char where
  "NUL = CHR 0x00"

definition cstr :: "buf \<Rightarrow> string" where
  \<comment> \<open>the C string a buffer holds: the bytes before the first NUL\<close>
  "cstr b = takeWhile (\<lambda>c. c \<noteq> NUL) b"

definition wf_buf :: "buf \<Rightarrow> bool" where
  \<comment> \<open>the buffer holds a terminated string\<close>
  "wf_buf b = (NUL \<in> set b)"

definition wf_store :: "store \<Rightarrow> bool" where
  "wf_store av = list_all wf_buf av"

definition args_parse :: "string list \<Rightarrow> store" where
  \<comment> \<open>\<open>args_parse(argc, argv)\<close>: the vector handed over by the operating system\<close>
  "args_parse ss = map (\<lambda>s. s @ [NUL]) ss"

definition arg :: "store \<Rightarrow> nat \<Rightarrow> string" where
  \<comment> \<open>\<open>args__argv[i]\<close> read as a C string\<close>
  "arg av i = cstr (av ! i)"

text \<open>A \<open>const char *\<close> into the store: the argument and the byte offset in its buffer.\<close>

type_synonym ptr = "nat \<times> nat"

definition string_at :: "store \<Rightarrow> ptr \<Rightarrow> string" where
  "string_at av p = cstr (drop (snd p) (av ! fst p))"

section \<open>The C library functions the queries call\<close>

definition isdigit :: "char \<Rightarrow> bool" where
  \<comment> \<open>the ten ASCII digits; false on every other byte, the bytes above 127 included\<close>
  "isdigit c = (48 \<le> (of_char c :: nat) \<and> (of_char c :: nat) \<le> 57)"

definition isspace :: "char \<Rightarrow> bool" where
  "isspace c = ((of_char c :: nat) = 32 \<or> (9 \<le> (of_char c :: nat) \<and> (of_char c :: nat) \<le> 13))"

definition tolower :: "char \<Rightarrow> char" where
  \<comment> \<open>the C locale, the one a program is in unless it calls \<open>setlocale\<close>\<close>
  "tolower c = (if 65 \<le> (of_char c :: nat) \<and> (of_char c :: nat) \<le> 90
                then char_of ((of_char c :: nat) + 32) else c)"

definition strcasecmp_eq :: "string \<Rightarrow> string \<Rightarrow> bool" where
  \<comment> \<open>\<open>!strcasecmp(a, b)\<close>\<close>
  "strcasecmp_eq a b = (map tolower a = map tolower b)"

definition strncmp_eq :: "string \<Rightarrow> string \<Rightarrow> bool" where
  \<comment> \<open>\<open>!strncmp(a, flag, strlen(flag))\<close>: the first \<open>strlen(flag)\<close> bytes agree; a shorter
      \<open>a\<close> differs at its terminator, since \<open>flag\<close> has no NUL\<close>
  "strncmp_eq a flag = (take (length flag) a = flag)"

definition strchr :: "string \<Rightarrow> char \<Rightarrow> nat option" where
  \<comment> \<open>the offset of the first occurrence of the byte, \<open>None\<close> for the null pointer\<close>
  "strchr a c = (let k = length (takeWhile (\<lambda>x. x \<noteq> c) a) in
                 if k < length a then Some k else None)"

definition digit_val :: "char \<Rightarrow> int" where
  "digit_val c = int (of_char c) - 48"

definition strtol :: "string \<Rightarrow> int" where
  \<comment> \<open>\<open>strtol(s, NULL, 10)\<close> with a 64-bit \<open>long\<close>: white space, an optional sign, the leading
      decimal digits; 0 when there is no digit; \<open>LONG_MIN\<close> or \<open>LONG_MAX\<close> when the value is
      out of range\<close>
  "strtol s = (let s1 = dropWhile isspace s;
                   num = (\<lambda>r. foldl (\<lambda>acc c. 10 * acc + digit_val c) 0 (takeWhile isdigit r));
                   v = (case s1 of
                          [] \<Rightarrow> 0
                        | c # r \<Rightarrow> if c = CHR ''-'' then - num r
                                   else if c = CHR ''+'' then num r
                                   else num s1)
               in max (- (2 ^ 63)) (min (2 ^ 63 - 1) v))"

definition atoi :: "string \<Rightarrow> int" where
  \<comment> \<open>the C library's \<open>atoi\<close> as glibc has it, \<open>(int) strtol(s, NULL, 10)\<close>: the \<open>long\<close> cut to
      its low 32 bits, read as two's complement, so that the value is a C \<open>int\<close>.  ISO C
      fixes the value only when it fits an \<open>int\<close>; there this is the number the digits say\<close>
  "atoi s = (strtol s + 2 ^ 31) mod 2 ^ 32 - 2 ^ 31"

definition sep :: char where
  "sep = CHR ''|''"

definition strtok :: "string \<Rightarrow> (string \<times> string) option" where
  \<comment> \<open>one call of \<open>strtok\<close> with the delimiter \<open>"|"\<close> on what is left of the copy: skip
      the leading delimiters; at the end there is no token; otherwise the token runs to the
      next delimiter, which is consumed\<close>
  "strtok s = (let s1 = dropWhile (\<lambda>c. c = sep) s in
               if s1 = [] then None
               else Some (takeWhile (\<lambda>c. c \<noteq> sep) s1, drop 1 (dropWhile (\<lambda>c. c \<noteq> sep) s1)))"

function strtok_all :: "string \<Rightarrow> string list" where
  \<comment> \<open>the tokens the successive calls of \<open>strtok\<close> give, until it returns \<open>NULL\<close>\<close>
  "strtok_all s = (case strtok s of
                     None \<Rightarrow> []
                   | Some (flag, rest) \<Rightarrow> flag # strtok_all rest)"
  by pat_completeness auto
termination
proof (relation "measure length")
  show "wf (measure length)" by simp
next
  fix s :: string and x2 flag rest
  assume h: "strtok s = Some x2" and x: "(flag, rest) = x2"
  let ?s1 = "dropWhile (\<lambda>c. c = sep) s"
  from h x have ne: "?s1 \<noteq> []" and r: "rest = drop 1 (dropWhile (\<lambda>c. c \<noteq> sep) ?s1)"
    by (auto simp: strtok_def Let_def split: if_splits)
  have a: "length (dropWhile (\<lambda>c. c \<noteq> sep) ?s1) \<le> length ?s1"
    by (rule length_dropWhile_le)
  have b: "length ?s1 \<le> length s"
    by (rule length_dropWhile_le)
  from ne have c: "0 < length ?s1" by simp
  have "length rest = length (dropWhile (\<lambda>c. c \<noteq> sep) ?s1) - 1"
    using r by simp
  with a b c have "length rest < length s" by linarith
  then show "(rest, s) \<in> measure length" by simp
qed

declare strtok_all.simps [simp del]

definition flags_of :: "string \<Rightarrow> string list" where
  \<comment> \<open>\<open>strcpy(arg_copy, arg)\<close>, then the tokens the \<open>while (flag)\<close> loop goes through\<close>
  "flags_of spec = strtok_all (cstr spec)"

section \<open>The four queries\<close>

definition true_values :: "string list" where
  "true_values = [''true'', ''on'', ''yes'', ''y'', ''1'']"

definition false_values :: "string list" where
  "false_values = [''false'', ''off'', ''no'', ''n'', ''0'']"

definition bool_body :: "string \<Rightarrow> store \<Rightarrow> nat \<Rightarrow> bool option" where
  \<comment> \<open>the body of the \<open>for\<close> loop of \<open>args_bool\<close> at index \<open>i\<close>: \<open>Some b\<close> is
      \<open>return b\<close>, \<open>None\<close> goes on with the loop\<close>
  "bool_body flag av i =
     (let a = arg av i in
      if a = flag then
        (if i + 1 < length av then
           (let next_arg = arg av (i + 1) in
            if \<exists>t \<in> set true_values. strcasecmp_eq next_arg t then Some True
            else if \<exists>t \<in> set false_values. strcasecmp_eq next_arg t then Some False
            else Some True)
         else Some True)
      else if strncmp_eq a flag then
        (case strchr a (CHR ''='') of
           None \<Rightarrow> None
         | Some k \<Rightarrow>
             (let v = drop (k + 1) a in
              if \<exists>t \<in> set true_values. v = t then Some True
              else if \<exists>t \<in> set false_values. v = t then Some False
              else None))
      else None)"

fun bool_scan :: "string \<Rightarrow> store \<Rightarrow> nat list \<Rightarrow> bool option" where
  "bool_scan flag av [] = None"
| "bool_scan flag av (i # is) =
     (case bool_body flag av i of Some b \<Rightarrow> Some b | None \<Rightarrow> bool_scan flag av is)"

fun bool_flags :: "string list \<Rightarrow> store \<Rightarrow> bool" where
  "bool_flags [] av = False"
| "bool_flags (flag # flags) av =
     (case bool_scan flag av [1..<length av] of
        Some b \<Rightarrow> b
      | None \<Rightarrow> bool_flags flags av)"

definition args_bool :: "string \<Rightarrow> store \<Rightarrow> bool" where
  "args_bool spec av = bool_flags (flags_of spec) av"

definition first_byte :: "string \<Rightarrow> char" where
  \<comment> \<open>\<open>s[0]\<close>: the terminator when the string is empty\<close>
  "first_byte a = (case a of [] \<Rightarrow> NUL | c # _ \<Rightarrow> c)"

definition num_body :: "(string \<Rightarrow> 'a) \<Rightarrow> string \<Rightarrow> store \<Rightarrow> nat \<Rightarrow> 'a \<Rightarrow> 'a" where
  \<comment> \<open>the body of the \<open>for\<close> loop of \<open>args_int\<close> and of \<open>args_float\<close>, which differ in the
      conversion only (\<open>atoi\<close> or \<open>atof\<close>); it takes and gives back \<open>result\<close>\<close>
  "num_body conv flag av i result =
     (let a = arg av i in
      if a = flag then
        (if i + 1 < length av \<and> isdigit (first_byte (arg av (i + 1)))
         then conv (arg av (i + 1)) else result)
      else if strncmp_eq a flag then
        (case strchr a (CHR ''='') of
           None \<Rightarrow> result
         | Some k \<Rightarrow> conv (drop (k + 1) a))
      else result)"

definition num_scan :: "(string \<Rightarrow> 'a) \<Rightarrow> store \<Rightarrow> string \<Rightarrow> 'a \<Rightarrow> 'a" where
  "num_scan conv av flag result = fold (num_body conv flag av) [1..<length av] result"

definition args_int :: "string \<Rightarrow> store \<Rightarrow> int" where
  "args_int spec av = fold (num_scan atoi av) (flags_of spec) 0"

definition args_float :: "(string \<Rightarrow> 'd) \<Rightarrow> string \<Rightarrow> store \<Rightarrow> 'd::zero" where
  \<comment> \<open>\<open>atof\<close> and the type of doubles are parameters: \<open>double result = 0\<close> is the zero
      of the type\<close>
  "args_float atof spec av = fold (num_scan atof av) (flags_of spec) 0"

definition quoted :: "string \<Rightarrow> nat \<Rightarrow> bool" where
  \<comment> \<open>\<open>value[0] == '"'\<close> for \<open>value\<close> one past the \<open>=\<close> at offset \<open>k\<close>; at the end of the
      string \<open>value[0]\<close> is the terminator\<close>
  "quoted a k = (k + 1 < length a \<and> a ! (k + 1) = CHR 0x22)"

definition close_off :: "string \<Rightarrow> nat \<Rightarrow> nat" where
  \<comment> \<open>where the \<open>while\<close> loop stops: the first quote or terminator from offset \<open>k + 2\<close> on\<close>
  "close_off a k = k + 2 + length (takeWhile (\<lambda>c. c \<noteq> CHR 0x22) (drop (k + 2) a))"

definition string_body :: "string \<Rightarrow> nat \<Rightarrow> ptr option \<times> store \<Rightarrow> ptr option \<times> store" where
  \<comment> \<open>the body of the \<open>for\<close> loop of \<open>args_string\<close> at index \<open>i\<close>, on \<open>result\<close> and the store\<close>
  "string_body flag i st =
     (case st of (result, av) \<Rightarrow>
        (let a = arg av i in
         if a = flag \<and> i + 1 < length av then (Some (i + 1, 0), av)
         else if strncmp_eq a flag then
           (case strchr a (CHR ''='') of
              None \<Rightarrow> (result, av)
            | Some k \<Rightarrow>
                if quoted a k
                then (Some (i, k + 2), av[i := (av ! i)[close_off a k := NUL]])
                else (Some (i, k + 1), av))
         else (result, av)))"

definition string_scan :: "string \<Rightarrow> ptr option \<times> store \<Rightarrow> ptr option \<times> store" where
  "string_scan flag st = fold (string_body flag) [1..<length (snd st)] st"

definition args_string :: "string \<Rightarrow> store \<Rightarrow> ptr option \<times> store" where
  \<comment> \<open>the pointer returned (\<open>None\<close> is \<open>NULL\<close>) and the store the call leaves\<close>
  "args_string spec av = fold string_scan (flags_of spec) (None, av)"

definition string_result :: "string \<Rightarrow> store \<Rightarrow> string option" where
  \<comment> \<open>what the caller reads through the pointer returned\<close>
  "string_result spec av =
     (case args_string spec av of (r, av') \<Rightarrow> map_option (string_at av') r)"

text \<open>
  A call of one of the four functions, as the caller sees it: the value returned and the
  store the call leaves.  \<open>args_bool\<close>, \<open>args_int\<close> and \<open>args_float\<close> read the arguments
  only (\<open>strcmp\<close>, \<open>strncmp\<close>, \<open>strchr\<close>, \<open>strcasecmp\<close>, \<open>isdigit\<close>, \<open>atoi\<close>, \<open>atof\<close>) and
  assign to their locals; the one assignment through a pointer into the store is
  \<open>*value = '\\0'\<close> of \<open>args_string\<close>.
\<close>

datatype query = Args_bool | Args_int | Args_float | Args_string

datatype 'd answer = Bool_answer bool | Int_answer int | Float_answer 'd | String_answer "ptr option"

definition call :: "(string \<Rightarrow> 'd) \<Rightarrow> query \<Rightarrow> string \<Rightarrow> store \<Rightarrow> 'd::zero answer \<times> store" where
  "call atof q spec av =
     (case q of
        Args_bool \<Rightarrow> (Bool_answer (args_bool spec av), av)
      | Args_int \<Rightarrow> (Int_answer (args_int spec av), av)
      | Args_float \<Rightarrow> (Float_answer (args_float atof spec av), av)
      | Args_string \<Rightarrow> (case args_string spec av of (r, av') \<Rightarrow> (String_answer r, av')))"

section \<open>Notions used in the statements\<close>

fun has_eq_quote :: "string \<Rightarrow> bool" where
  \<comment> \<open>the string holds an \<open>=\<close> with a double quote right after it\<close>
  "has_eq_quote (c # d # cs) = ((c = CHR ''='' \<and> d = CHR 0x22) \<or> has_eq_quote (d # cs))"
| "has_eq_quote _ = False"

definition unquote :: "buf \<Rightarrow> buf" where
  \<comment> \<open>the buffer after the quoted branch of \<open>args_string\<close> has run on it; the same buffer
      when its string has no \<open>=\<close> or no quote right after the first one\<close>
  "unquote b =
     (case strchr (cstr b) (CHR ''='') of
        None \<Rightarrow> b
      | Some k \<Rightarrow> if quoted (cstr b) k then b[close_off (cstr b) k := NUL] else b)"

definition mutates :: "string \<Rightarrow> store \<Rightarrow> nat \<Rightarrow> bool" where
  \<comment> \<open>the loop body of \<open>args_string\<close> takes its quoted branch at this flag and index\<close>
  "mutates flag av i =
     (\<not> (arg av i = flag \<and> i + 1 < length av) \<and> strncmp_eq (arg av i) flag
      \<and> (case strchr (arg av i) (CHR ''='') of None \<Rightarrow> False | Some k \<Rightarrow> quoted (arg av i) k))"

definition num_assigns :: "string \<Rightarrow> store \<Rightarrow> nat \<Rightarrow> bool" where
  \<comment> \<open>the loop body of \<open>args_int\<close> and \<open>args_float\<close> assigns \<open>result\<close> at this flag and index\<close>
  "num_assigns flag av i =
     (if arg av i = flag then i + 1 < length av \<and> isdigit (first_byte (arg av (i + 1)))
      else strncmp_eq (arg av i) flag \<and> strchr (arg av i) (CHR ''='') \<noteq> None)"

definition string_assigns :: "string \<Rightarrow> store \<Rightarrow> nat \<Rightarrow> bool" where
  \<comment> \<open>the loop body of \<open>args_string\<close> assigns \<open>result\<close> at this flag and index\<close>
  "string_assigns flag av i =
     (if arg av i = flag \<and> i + 1 < length av then True
      else strncmp_eq (arg av i) flag \<and> strchr (arg av i) (CHR ''='') \<noteq> None)"

definition run :: "(string \<times> nat) list \<Rightarrow> ptr option \<times> store \<Rightarrow> ptr option \<times> store" where
  \<comment> \<open>the loop bodies of \<open>args_string\<close> one after the other, for a list of flags and indices\<close>
  "run steps st = fold (\<lambda>p. string_body (fst p) (snd p)) steps st"

definition derived :: "store \<Rightarrow> string set \<Rightarrow> store \<Rightarrow> bool" where
  \<comment> \<open>what a store can have become after loop bodies of \<open>args_string\<close> for flags in \<open>F\<close>\<close>
  "derived av F s =
     (length s = length av \<and>
      (\<forall>i < length av. s ! i = av ! i \<or>
         (1 \<le> i \<and> (\<exists>flag \<in> F. strncmp_eq (arg av i) flag) \<and> s ! i = unquote (av ! i))))"

section \<open>The boolean query: scan order and loop body\<close>

lemma tolower_true_values: "t \<in> set true_values \<Longrightarrow> map tolower t = t"
  by (auto simp: true_values_def tolower_def)

lemma tolower_false_values: "t \<in> set false_values \<Longrightarrow> map tolower t = t"
  by (auto simp: false_values_def tolower_def)

lemma strcasecmp_true_values:
  "(\<exists>t \<in> set true_values. strcasecmp_eq x t) = (map tolower x \<in> set true_values)"
  unfolding strcasecmp_eq_def using tolower_true_values by fastforce

lemma strcasecmp_false_values:
  "(\<exists>t \<in> set false_values. strcasecmp_eq x t) = (map tolower x \<in> set false_values)"
  unfolding strcasecmp_eq_def using tolower_false_values by fastforce

lemma true_not_false: "x \<in> set true_values \<Longrightarrow> x \<notin> set false_values"
  by (auto simp: true_values_def false_values_def)

lemma bool_scan_append:
  "bool_scan flag av (xs @ ys) =
     (case bool_scan flag av xs of Some b \<Rightarrow> Some b | None \<Rightarrow> bool_scan flag av ys)"
  by (induction xs) (auto split: option.splits)

lemma bool_scan_None:
  "(\<forall>m \<in> set xs. bool_body flag av m = None) \<Longrightarrow> bool_scan flag av xs = None"
  by (induction xs) auto

lemma bool_flags_append:
  "(\<forall>g \<in> set fs1. bool_scan g av [1..<length av] = None) \<Longrightarrow>
   bool_flags (fs1 @ fs2) av = bool_flags fs2 av"
  by (induction fs1) auto

lemma upt_split_at:
  "Suc 0 \<le> i \<Longrightarrow> i < n \<Longrightarrow> [Suc 0..<n] = [Suc 0..<i] @ i # [Suc i..<n]"
  using upt_add_eq_append [of "Suc 0" i "n - i"] upt_conv_Cons [of i n] by simp

lemma bool_first_decides:
  assumes "\<forall>g \<in> set fs1. \<forall>m. 1 \<le> m \<and> m < length av \<longrightarrow> bool_body g av m = None"
    and "\<forall>m. 1 \<le> m \<and> m < i \<longrightarrow> bool_body flag av m = None"
    and "1 \<le> i" and "i < length av"
    and "bool_body flag av i = Some b"
  shows "bool_flags (fs1 @ flag # fs2) av = b"
proof -
  have "\<forall>g \<in> set fs1. bool_scan g av [1..<length av] = None"
    using assms(1) by (auto intro!: bool_scan_None)
  then have 1: "bool_flags (fs1 @ flag # fs2) av = bool_flags (flag # fs2) av"
    by (rule bool_flags_append)
  have "bool_scan flag av [1..<i] = None"
    using assms(2) by (auto intro!: bool_scan_None)
  then have "bool_scan flag av [1..<length av] = Some b"
    using assms(3,4,5) upt_split_at [of i "length av"] by (simp add: bool_scan_append)
  with 1 show ?thesis by simp
qed

lemma bool_none_decides:
  assumes "\<forall>g \<in> set fs. \<forall>m. 1 \<le> m \<and> m < length av \<longrightarrow> bool_body g av m = None"
  shows "bool_flags fs av = False"
proof -
  have "\<forall>g \<in> set fs. bool_scan g av [1..<length av] = None"
    using assms by (auto intro!: bool_scan_None)
  then have "bool_flags (fs @ []) av = bool_flags [] av"
    by (rule bool_flags_append)
  then show ?thesis by simp
qed

lemma bool_body_exact:
  assumes "arg av i = flag"
  shows "bool_body flag av i =
           Some (\<not> (i + 1 < length av \<and> map tolower (arg av (i + 1)) \<in> set false_values))"
  using assms true_not_false [of "map tolower (arg av (i + 1))"]
  by (auto simp: bool_body_def Let_def strcasecmp_true_values strcasecmp_false_values)

lemma bool_body_exact_cases:
  assumes "arg av i = flag"
  shows "bool_body flag av i =
           Some (if i + 1 < length av \<and> map tolower (arg av (i + 1)) \<in> set true_values then True
                 else if i + 1 < length av \<and> map tolower (arg av (i + 1)) \<in> set false_values
                 then False else True)"
  using assms true_not_false [of "map tolower (arg av (i + 1))"]
  by (simp add: bool_body_exact)

lemma bool_body_eq_form:
  assumes "arg av i \<noteq> flag" and "strncmp_eq (arg av i) flag"
    and "strchr (arg av i) (CHR ''='') = Some k"
  shows "bool_body flag av i =
           (if drop (k + 1) (arg av i) \<in> set true_values then Some True
            else if drop (k + 1) (arg av i) \<in> set false_values then Some False
            else None)"
  using assms by (auto simp: bool_body_def Let_def)

lemma bool_body_no_prefix:
  "\<not> strncmp_eq (arg av i) flag \<Longrightarrow> bool_body flag av i = None"
  by (auto simp: bool_body_def Let_def strncmp_eq_def)

lemma bool_body_other_flag:
  assumes "\<forall>g \<in> set fs. \<forall>m. 1 \<le> m \<and> m < length av \<and> m \<noteq> i \<longrightarrow> \<not> strncmp_eq (arg av m) g"
    and "\<forall>g \<in> set fs. g \<noteq> flag \<longrightarrow> \<not> strncmp_eq (arg av i) g"
    and "bool_body flag av i = None"
  shows "\<forall>g \<in> set fs. \<forall>m. 1 \<le> m \<and> m < length av \<longrightarrow> bool_body g av m = None"
proof (intro ballI allI impI)
  fix g m assume g: "g \<in> set fs" and m: "1 \<le> m \<and> m < length av"
  show "bool_body g av m = None"
  proof (cases "m = i")
    case False
    with assms(1) g m show ?thesis by (simp add: bool_body_no_prefix)
  next
    case True
    show ?thesis
    proof (cases "g = flag")
      case True
      with \<open>m = i\<close> assms(3) show ?thesis by simp
    next
      case False
      with \<open>m = i\<close> assms(2) g show ?thesis by (simp add: bool_body_no_prefix)
    qed
  qed
qed

section \<open>The numeric queries: loop body and scans\<close>

text \<open>The value of \<open>atoi\<close> is a C \<open>int\<close>, also where the digits say more.\<close>

lemma atoi_range: "- (2 ^ 31) \<le> atoi s \<and> atoi s < 2 ^ 31"
proof -
  have "0 \<le> (strtol s + 2 ^ 31) mod 2 ^ 32" "(strtol s + 2 ^ 31) mod 2 ^ 32 < 2 ^ 32"
    by simp_all
  then show ?thesis by (simp add: atoi_def)
qed

lemma atoi_out_of_range:
  "atoi ''2147483647'' = 2147483647"
  "atoi ''2147483648'' = - 2147483648"
  "atoi ''99999999999999999999'' = - 1"
  "atoi ''-99999999999999999999'' = 0"
  by code_simp+

lemma length_takeWhile_less_iff:
  "(length (takeWhile P xs) < length xs) = (\<exists>x \<in> set xs. \<not> P x)"
  by (induction xs) auto

lemma strchr_None: "(strchr a c = None) = (c \<notin> set a)"
  by (auto simp: strchr_def Let_def length_takeWhile_less_iff)

lemma strchr_Some:
  assumes "strchr a c = Some k"
  shows "k < length a" and "a ! k = c" and "c \<notin> set (take k a)"
    and "k = length (takeWhile (\<lambda>x. x \<noteq> c) a)"
proof -
  from assms show k: "k = length (takeWhile (\<lambda>x. x \<noteq> c) a)" and l: "k < length a"
    by (auto simp: strchr_def Let_def split: if_splits)
  from nth_length_takeWhile [of "\<lambda>x. x \<noteq> c" a] k l show "a ! k = c" by simp
  have "take k a = takeWhile (\<lambda>x. x \<noteq> c) a"
    unfolding k by (metis takeWhile_eq_take)
  then show "c \<notin> set (take k a)"
    by (metis (mono_tags, lifting) set_takeWhileD)
qed

lemma fold_unchanged: "(\<forall>x \<in> set xs. f x r = r) \<Longrightarrow> fold f xs r = r"
  by (induction xs) auto

lemma num_body_no_prefix:
  "\<not> strncmp_eq (arg av i) flag \<Longrightarrow> num_body conv flag av i r = r"
  by (auto simp: num_body_def Let_def strncmp_eq_def)

lemma num_body_exact:
  "arg av i = flag \<Longrightarrow> num_body conv flag av i r =
     (if i + 1 < length av \<and> isdigit (first_byte (arg av (i + 1)))
      then conv (arg av (i + 1)) else r)"
  by (simp add: num_body_def Let_def)

lemma num_body_eq_form:
  "arg av i \<noteq> flag \<Longrightarrow> strncmp_eq (arg av i) flag \<Longrightarrow> strchr (arg av i) (CHR ''='') = Some k
     \<Longrightarrow> num_body conv flag av i r = conv (drop (k + 1) (arg av i))"
  by (simp add: num_body_def Let_def)

lemma num_body_no_match:
  "arg av i \<noteq> flag \<Longrightarrow> (strncmp_eq (arg av i) flag \<longrightarrow> strchr (arg av i) (CHR ''='') = None)
     \<Longrightarrow> num_body conv flag av i r = r"
  by (auto simp: num_body_def Let_def)

lemma num_body_idem:
  "num_body conv flag av i (num_body conv flag av i r) = num_body conv flag av i r"
  by (auto simp: num_body_def Let_def split: option.splits)

lemma num_scan_unchanged:
  "(\<forall>m. 1 \<le> m \<and> m < length av \<longrightarrow> num_body conv flag av m r = r)
     \<Longrightarrow> num_scan conv av flag r = r"
  unfolding num_scan_def by (rule fold_unchanged) auto

lemma num_scan_last:
  assumes "1 \<le> j" and "j < length av"
    and "\<forall>m r. j < m \<and> m < length av \<longrightarrow> num_body conv flag av m r = r"
  shows "num_scan conv av flag r =
           num_body conv flag av j (fold (num_body conv flag av) [1..<j] r)"
proof -
  have "fold (num_body conv flag av) [Suc j..<length av] r' = r'" for r'
    using assms(3) by (intro fold_unchanged) auto
  then show ?thesis
    using assms(1,2) upt_split_at [of j "length av"] by (simp add: num_scan_def)
qed

lemma num_scan_only:
  assumes "1 \<le> i" and "i < length av"
    and "\<forall>m. 1 \<le> m \<and> m < length av \<and> m \<noteq> i \<longrightarrow> \<not> strncmp_eq (arg av m) flag"
  shows "num_scan conv av flag r = num_body conv flag av i r"
proof -
  have "fold (num_body conv flag av) [1..<i] r = r"
    using assms(2,3) by (intro fold_unchanged) (auto simp: num_body_no_prefix)
  moreover have "\<forall>m r. i < m \<and> m < length av \<longrightarrow> num_body conv flag av m r = r"
    using assms(1,3) by (auto simp: num_body_no_prefix)
  ultimately show ?thesis
    using num_scan_last [OF assms(1,2), of conv flag r] by simp
qed

lemma num_fold_only:
  assumes "1 \<le> i" and "i < length av"
    and "\<forall>g \<in> set fs. \<forall>m. 1 \<le> m \<and> m < length av \<and> m \<noteq> i \<longrightarrow> \<not> strncmp_eq (arg av m) g"
    and "\<forall>g \<in> set fs. g \<noteq> flag \<longrightarrow> \<not> strncmp_eq (arg av i) g"
  shows "fold (num_scan conv av) fs r =
           (if flag \<in> set fs then num_body conv flag av i r else r)"
  using assms(3,4)
proof (induction fs arbitrary: r)
  case Nil
  then show ?case by simp
next
  case (Cons g fs)
  from Cons.prems(1)
  have g1: "\<forall>m. 1 \<le> m \<and> m < length av \<and> m \<noteq> i \<longrightarrow> \<not> strncmp_eq (arg av m) g"
    and p1: "\<forall>g \<in> set fs. \<forall>m. 1 \<le> m \<and> m < length av \<and> m \<noteq> i \<longrightarrow> \<not> strncmp_eq (arg av m) g"
    by simp_all
  from Cons.prems(2)
  have g2: "g \<noteq> flag \<longrightarrow> \<not> strncmp_eq (arg av i) g"
    and p2: "\<forall>g \<in> set fs. g \<noteq> flag \<longrightarrow> \<not> strncmp_eq (arg av i) g"
    by simp_all
  have step: "num_scan conv av g r = (if g = flag then num_body conv flag av i r else r)"
  proof (cases "g = flag")
    case True
    then show ?thesis using num_scan_only [OF assms(1,2) g1, of conv r] by simp
  next
    case False
    with g1 g2 have "\<forall>m. 1 \<le> m \<and> m < length av \<longrightarrow> \<not> strncmp_eq (arg av m) g"
      by blast
    then have "num_scan conv av g r = r"
      by (intro num_scan_unchanged) (simp add: num_body_no_prefix)
    with False show ?thesis by simp
  qed
  note ih = Cons.IH [OF p1 p2]
  show ?case
    using step ih [of "num_scan conv av g r"] by (auto simp: num_body_idem)
qed

section \<open>Scans that find no occurrence\<close>

lemma string_body_exact:
  "arg av i = flag \<Longrightarrow> i + 1 < length av \<Longrightarrow> string_body flag i (r, av) = (Some (i + 1, 0), av)"
  by (simp add: string_body_def)

lemma string_body_no_match:
  "arg av i \<noteq> flag \<Longrightarrow> (strncmp_eq (arg av i) flag \<longrightarrow> strchr (arg av i) (CHR ''='') = None)
     \<Longrightarrow> string_body flag i (r, av) = (r, av)"
  by (auto simp: string_body_def Let_def)

lemma string_body_no_prefix:
  "\<not> strncmp_eq (arg av i) flag \<Longrightarrow> string_body flag i (r, av) = (r, av)"
  by (auto simp: string_body_def Let_def strncmp_eq_def)

lemma string_scan_unchanged:
  "(\<forall>m. 1 \<le> m \<and> m < length av \<longrightarrow> string_body flag m (r, av) = (r, av))
     \<Longrightarrow> string_scan flag (r, av) = (r, av)"
  unfolding string_scan_def by (rule fold_unchanged) auto

lemma bool_body_no_match:
  "arg av i \<noteq> flag \<Longrightarrow> (strncmp_eq (arg av i) flag \<longrightarrow> strchr (arg av i) (CHR ''='') = None)
     \<Longrightarrow> bool_body flag av i = None"
  by (auto simp: bool_body_def Let_def)

lemma no_match_defaults:
  fixes atof :: "string \<Rightarrow> 'd::zero"
  assumes "\<forall>flag \<in> set fs. \<forall>m. 1 \<le> m \<and> m < length av \<longrightarrow>
             arg av m \<noteq> flag \<and> (strncmp_eq (arg av m) flag \<longrightarrow> strchr (arg av m) (CHR ''='') = None)"
  shows "bool_flags fs av = False" and "fold (num_scan atoi av) fs r = r"
    and "fold (num_scan atof av) fs d = d" and "fold string_scan fs (p, av) = (p, av)"
proof -
  show "bool_flags fs av = False"
    using assms by (intro bool_none_decides) (simp add: bool_body_no_match)
  have n: "num_scan conv av flag x = x" if "flag \<in> set fs" for conv :: "string \<Rightarrow> 'x" and flag x
    using assms that by (intro num_scan_unchanged) (simp add: num_body_no_match)
  show "fold (num_scan atoi av) fs r = r"
    by (rule fold_unchanged) (simp add: n)
  show "fold (num_scan atof av) fs d = d"
    by (rule fold_unchanged) (simp add: n)
  have "string_scan flag (p, av) = (p, av)" if "flag \<in> set fs" for flag
    using assms that by (intro string_scan_unchanged) (simp add: string_body_no_match)
  then show "fold string_scan fs (p, av) = (p, av)"
    by (intro fold_unchanged) simp
qed

section \<open>The string query: buffers, the quoted branch and runs of loop bodies\<close>

subsection \<open>C strings in buffers\<close>

lemma cstr_no_NUL: "NUL \<notin> set (cstr b)"
  by (auto simp: cstr_def dest: set_takeWhileD)

lemma wf_buf_split: "wf_buf b \<Longrightarrow> \<exists>rest. b = cstr b @ NUL # rest"
proof -
  assume "wf_buf b"
  then have "dropWhile (\<lambda>c. c \<noteq> NUL) b \<noteq> []"
    by (auto simp: wf_buf_def dropWhile_eq_Nil_conv)
  moreover have "hd (dropWhile (\<lambda>c. c \<noteq> NUL) b) = NUL"
    using calculation hd_dropWhile [of "\<lambda>c. c \<noteq> NUL" b] by auto
  ultimately obtain rest where "dropWhile (\<lambda>c. c \<noteq> NUL) b = NUL # rest"
    by (cases "dropWhile (\<lambda>c. c \<noteq> NUL) b") auto
  then have "b = cstr b @ NUL # rest"
    unfolding cstr_def by (metis takeWhile_dropWhile_id)
  then show ?thesis ..
qed

lemma cstr_append_NUL: "NUL \<notin> set a \<Longrightarrow> cstr (a @ NUL # rest) = a"
  by (induction a) (auto simp: cstr_def)

lemma cstr_update:
  assumes "wf_buf b" and "e \<le> length (cstr b)"
  shows "cstr (b[e := NUL]) = take e (cstr b)"
proof -
  obtain rest where b: "b = cstr b @ NUL # rest"
    using wf_buf_split [OF assms(1)] by blast
  let ?a = "cstr b"
  have n: "NUL \<notin> set ?a" by (rule cstr_no_NUL)
  show ?thesis
  proof (cases "e = length ?a")
    case True
    have "(?a @ NUL # rest)[e := NUL] = ?a @ NUL # rest"
      using True by (simp add: list_update_append)
    with b True show ?thesis by simp
  next
    case False
    with assms(2) have e: "e < length ?a" by simp
    have "(?a @ NUL # rest)[e := NUL] = take e ?a @ NUL # (drop (Suc e) ?a @ NUL # rest)"
      using e by (simp add: list_update_append upd_conv_take_nth_drop)
    moreover have "NUL \<notin> set (take e ?a)"
      using n by (auto dest: in_set_takeD)
    ultimately have "cstr ((?a @ NUL # rest)[e := NUL]) = take e ?a"
      by (simp add: cstr_append_NUL)
    with b show ?thesis by simp
  qed
qed

lemma wf_buf_update: "wf_buf b \<Longrightarrow> wf_buf (b[e := NUL])"
proof (cases "e < length b")
  case True
  then show ?thesis by (simp add: wf_buf_def set_update_memI)
next
  case False
  assume "wf_buf b"
  with False show ?thesis by (simp add: list_update_beyond)
qed

lemma takeWhile_drop:
  "n \<le> length (takeWhile P xs) \<Longrightarrow> takeWhile P (drop n xs) = drop n (takeWhile P xs)"
  by (induction xs arbitrary: n) (auto simp: drop_Cons split: nat.splits)

lemma cstr_drop: "off \<le> length (cstr b) \<Longrightarrow> cstr (drop off b) = drop off (cstr b)"
  unfolding cstr_def by (rule takeWhile_drop)

lemma nth_cstr: "i < length (cstr b) \<Longrightarrow> b ! i = cstr b ! i"
  unfolding cstr_def by (simp add: takeWhile_nth)

lemma wf_store_args_parse: "wf_store (args_parse ss)"
  by (induction ss) (simp_all add: wf_store_def args_parse_def wf_buf_def)

lemma arg_args_parse:
  "i < length ss \<Longrightarrow> NUL \<notin> set (ss ! i) \<Longrightarrow> arg (args_parse ss) i = ss ! i"
  using cstr_append_NUL [of "ss ! i" "[]"] by (simp add: arg_def args_parse_def)

subsection \<open>The closing quote\<close>

lemma close_off_bounds:
  "k + 2 \<le> length a \<Longrightarrow> k + 2 \<le> close_off a k \<and> close_off a k \<le> length a"
proof -
  assume h: "k + 2 \<le> length a"
  have "length (takeWhile (\<lambda>c. c \<noteq> CHR 0x22) (drop (k + 2) a)) \<le> length (drop (k + 2) a)"
    by (rule length_takeWhile_le)
  with h show ?thesis by (simp add: close_off_def)
qed

lemma close_off_nth:
  assumes "close_off a k < length a"
  shows "a ! close_off a k = CHR 0x22"
proof -
  let ?d = "drop (k + 2) a"
  let ?n = "length (takeWhile (\<lambda>c. c \<noteq> CHR 0x22) ?d)"
  have "?n < length ?d" using assms by (simp add: close_off_def)
  then have "\<not> (?d ! ?n \<noteq> CHR 0x22)" by (rule nth_length_takeWhile)
  moreover have "?d ! ?n = a ! (k + 2 + ?n)"
    using assms by (simp add: close_off_def)
  ultimately show ?thesis by (simp add: close_off_def)
qed

lemma drop_take_close_off:
  "drop (k + 2) (take (close_off a k) a) = takeWhile (\<lambda>c. c \<noteq> CHR 0x22) (drop (k + 2) a)"
proof -
  have "drop (k + 2) (take (close_off a k) a)
        = take (close_off a k - (k + 2)) (drop (k + 2) a)"
    by (simp add: drop_take)
  also have "\<dots> = take (length (takeWhile (\<lambda>c. c \<noteq> CHR 0x22) (drop (k + 2) a))) (drop (k + 2) a)"
    by (simp add: close_off_def)
  also have "\<dots> = takeWhile (\<lambda>c. c \<noteq> CHR 0x22) (drop (k + 2) a)"
    by (metis takeWhile_eq_take)
  finally show ?thesis .
qed

lemma close_off_take: "close_off (take (close_off a k) a) k = close_off a k"
  unfolding close_off_def [of "take (close_off a k) a"] drop_take_close_off
  by (simp add: close_off_def takeWhile_idem)

subsection \<open>The buffer after the quoted branch\<close>

lemma strchr_SomeI:
  assumes "k < length a" and "a ! k = c" and "c \<notin> set (take k a)"
  shows "strchr a c = Some k"
proof -
  have a: "a = take k a @ c # drop (Suc k) a"
    using assms(1,2) by (metis id_take_nth_drop)
  have "takeWhile (\<lambda>x. x \<noteq> c) (take k a @ c # drop (Suc k) a) = take k a"
    using assms(3) by (auto simp: takeWhile_tail takeWhile_eq_all_conv)
  with a have "takeWhile (\<lambda>x. x \<noteq> c) a = take k a" by simp
  then show ?thesis
    using assms(1) by (simp add: strchr_def Let_def)
qed

lemma strchr_take:
  assumes "strchr a c = Some k" and "k < e"
  shows "strchr (take e a) c = Some k"
proof (rule strchr_SomeI)
  note s = strchr_Some [OF assms(1)]
  show "k < length (take e a)" using s(1) assms(2) by simp
  show "take e a ! k = c" using s(2) assms(2) by simp
  show "c \<notin> set (take k (take e a))" using s(3) assms(2) by (simp add: min_def)
qed

lemma quoted_take: "quoted a k \<Longrightarrow> k + 2 \<le> e \<Longrightarrow> quoted (take e a) k"
  by (simp add: quoted_def)

lemma unquote_quoted:
  "strchr (cstr b) (CHR ''='') = Some k \<Longrightarrow> quoted (cstr b) k
     \<Longrightarrow> unquote b = b[close_off (cstr b) k := NUL]"
  by (simp add: unquote_def)

lemma unquote_not_quoted:
  "strchr (cstr b) (CHR ''='') = Some k \<Longrightarrow> \<not> quoted (cstr b) k \<Longrightarrow> unquote b = b"
  by (simp add: unquote_def)

lemma unquote_no_eq: "strchr (cstr b) (CHR ''='') = None \<Longrightarrow> unquote b = b"
  by (simp add: unquote_def)

lemma cstr_unquote:
  assumes "wf_buf b" and "strchr (cstr b) (CHR ''='') = Some k" and "quoted (cstr b) k"
  shows "cstr (unquote b) = take (close_off (cstr b) k) (cstr b)"
proof -
  have "k + 2 \<le> length (cstr b)" using assms(3) by (simp add: quoted_def)
  then have "close_off (cstr b) k \<le> length (cstr b)"
    using close_off_bounds by blast
  with assms show ?thesis
    by (simp add: unquote_quoted cstr_update)
qed

lemma wf_buf_unquote: "wf_buf b \<Longrightarrow> wf_buf (unquote b)"
  by (auto simp: unquote_def wf_buf_update split: option.splits)

lemma length_unquote: "length (unquote b) = length b"
  by (auto simp: unquote_def split: option.splits)

lemma strchr_unquote:
  assumes "wf_buf b"
  shows "strchr (cstr (unquote b)) (CHR ''='') = strchr (cstr b) (CHR ''='')"
proof (cases "strchr (cstr b) (CHR ''='')")
  case None
  then show ?thesis by (simp add: unquote_no_eq)
next
  case (Some k)
  show ?thesis
  proof (cases "quoted (cstr b) k")
    case False
    with Some show ?thesis by (simp add: unquote_not_quoted)
  next
    case True
    then have "k + 2 \<le> length (cstr b)" by (simp add: quoted_def)
    then have "k < close_off (cstr b) k"
      using close_off_bounds [of k "cstr b"] by simp
    then show ?thesis
      using Some True assms by (simp add: cstr_unquote strchr_take)
  qed
qed

lemma quoted_unquote:
  assumes "wf_buf b" and "strchr (cstr b) (CHR ''='') = Some k"
  shows "quoted (cstr (unquote b)) k = quoted (cstr b) k"
proof (cases "quoted (cstr b) k")
  case False
  with assms show ?thesis by (simp add: unquote_not_quoted)
next
  case True
  then have "k + 2 \<le> length (cstr b)" by (simp add: quoted_def)
  then have "k + 2 \<le> close_off (cstr b) k"
    using close_off_bounds [of k "cstr b"] by simp
  then show ?thesis
    using True assms by (simp add: cstr_unquote quoted_take)
qed

lemma unquote_idem:
  assumes "wf_buf b"
  shows "unquote (unquote b) = unquote b"
proof (cases "strchr (cstr b) (CHR ''='')")
  case None
  then show ?thesis by (simp add: unquote_no_eq)
next
  case (Some k)
  show ?thesis
  proof (cases "quoted (cstr b) k")
    case False
    with Some show ?thesis by (simp add: unquote_not_quoted)
  next
    case True
    have s: "strchr (cstr (unquote b)) (CHR ''='') = Some k"
      using strchr_unquote [OF assms] Some by simp
    have q: "quoted (cstr (unquote b)) k"
      using quoted_unquote [OF assms Some] True by simp
    have c: "close_off (cstr (unquote b)) k = close_off (cstr b) k"
      using Some True assms by (simp add: cstr_unquote close_off_take)
    have "unquote (unquote b) = (unquote b)[close_off (cstr b) k := NUL]"
      using unquote_quoted [OF s q] c by simp
    also have "\<dots> = unquote b"
      using Some True by (simp add: unquote_quoted)
    finally show ?thesis .
  qed
qed

subsection \<open>Flags that hold no \<open>=\<close> followed by a quote\<close>

lemma has_eq_quoteI:
  "Suc n < length f \<Longrightarrow> f ! n = CHR ''='' \<Longrightarrow> f ! Suc n = CHR 0x22 \<Longrightarrow> has_eq_quote f"
proof (induction f arbitrary: n rule: has_eq_quote.induct)
  case (1 c d cs)
  show ?case
  proof (cases n)
    case 0
    with 1 show ?thesis by simp
  next
    case (Suc m)
    with 1 have "has_eq_quote (d # cs)" by simp
    then show ?thesis by simp
  qed
qed simp_all

lemma short_flag:
  assumes "\<not> has_eq_quote flag" and "strchr a (CHR ''='') = Some k" and "quoted a k"
    and "k + 2 \<le> e" and "strncmp_eq (take e a) flag"
  shows "length flag \<le> k + 1"
proof (rule ccontr)
  assume "\<not> length flag \<le> k + 1"
  then have l: "k + 2 \<le> length flag" by simp
  from assms(5) have f: "flag = take (length flag) (take e a)"
    by (simp add: strncmp_eq_def)
  have "flag ! k = take (length flag) (take e a) ! k" using f by simp
  also have "\<dots> = a ! k" using l assms(4) by simp
  finally have 1: "flag ! k = CHR ''=''"
    using strchr_Some(2) [OF assms(2)] by simp
  have "flag ! Suc k = take (length flag) (take e a) ! Suc k" using f by simp
  also have "\<dots> = a ! Suc k" using l assms(4) by simp
  finally have 2: "flag ! Suc k = CHR 0x22"
    using assms(3) by (simp add: quoted_def)
  from l 1 2 have "has_eq_quote flag"
    by (intro has_eq_quoteI [of k]) simp_all
  with assms(1) show False by simp
qed

lemma strncmp_take:
  "length flag \<le> e \<Longrightarrow> strncmp_eq (take e a) flag = strncmp_eq a flag"
  by (simp add: strncmp_eq_def min_def)

lemma strncmp_unquote:
  assumes "wf_buf b" and "\<not> has_eq_quote flag"
  shows "strncmp_eq (cstr (unquote b)) flag = strncmp_eq (cstr b) flag"
proof (cases "strchr (cstr b) (CHR ''='')")
  case None
  then show ?thesis by (simp add: unquote_no_eq)
next
  case (Some k)
  show ?thesis
  proof (cases "quoted (cstr b) k")
    case False
    with Some show ?thesis by (simp add: unquote_not_quoted)
  next
    case True
    let ?a = "cstr b" and ?e = "close_off (cstr b) k"
    have k2: "k + 2 \<le> length ?a" using True by (simp add: quoted_def)
    then have e: "k + 2 \<le> ?e" "?e \<le> length ?a"
      using close_off_bounds [of k ?a] by simp_all
    have c: "cstr (unquote b) = take ?e ?a"
      using assms(1) Some True by (rule cstr_unquote)
    show ?thesis
    proof
      assume h: "strncmp_eq (cstr (unquote b)) flag"
      then have "length flag \<le> k + 1"
        using short_flag [OF assms(2) Some True e(1)] c by simp
      with e(1) have "length flag \<le> ?e" by simp
      with h c show "strncmp_eq ?a flag" by (simp add: strncmp_take)
    next
      assume h: "strncmp_eq ?a flag"
      then have "strncmp_eq (take (length ?a) ?a) flag" by simp
      then have "length flag \<le> k + 1"
        using short_flag [OF assms(2) Some True k2] by simp
      with e(1) have "length flag \<le> ?e" by simp
      with h c show "strncmp_eq (cstr (unquote b)) flag" by (simp add: strncmp_take)
    qed
  qed
qed

lemma cstr_unquote_eq_flag:
  assumes "wf_buf b" and "\<not> has_eq_quote flag"
  shows "(cstr (unquote b) = flag) = (cstr b = flag)"
proof (cases "strchr (cstr b) (CHR ''='')")
  case None
  then show ?thesis by (simp add: unquote_no_eq)
next
  case (Some k)
  show ?thesis
  proof (cases "quoted (cstr b) k")
    case False
    with Some show ?thesis by (simp add: unquote_not_quoted)
  next
    case True
    let ?a = "cstr b" and ?e = "close_off (cstr b) k"
    have k2: "k + 2 \<le> length ?a" using True by (simp add: quoted_def)
    then have e: "k + 2 \<le> ?e" "?e \<le> length ?a"
      using close_off_bounds [of k ?a] by simp_all
    have c: "cstr (unquote b) = take ?e ?a"
      using assms(1) Some True by (rule cstr_unquote)
    have 1: "?a \<noteq> flag"
    proof
      assume h: "?a = flag"
      then have "strncmp_eq (take (length ?a) ?a) flag" by (simp add: strncmp_eq_def)
      then have "length flag \<le> k + 1"
        using short_flag [OF assms(2) Some True k2] by simp
      with h k2 show False by simp
    qed
    have 2: "take ?e ?a \<noteq> flag"
    proof
      assume h: "take ?e ?a = flag"
      then have "strncmp_eq (take ?e ?a) flag" by (simp add: strncmp_eq_def)
      then have "length flag \<le> k + 1"
        using short_flag [OF assms(2) Some True e(1)] by simp
      moreover have "length flag = ?e" using h e(2) by auto
      ultimately show False using e(1) by simp
    qed
    from 1 2 c show ?thesis by simp
  qed
qed

lemma strncmp_unquote_imp:
  assumes "wf_buf b" and "strncmp_eq (cstr (unquote b)) flag"
  shows "strncmp_eq (cstr b) flag"
proof (cases "strchr (cstr b) (CHR ''='')")
  case None
  with assms(2) show ?thesis by (simp add: unquote_no_eq)
next
  case (Some k)
  show ?thesis
  proof (cases "quoted (cstr b) k")
    case False
    with Some assms(2) show ?thesis by (simp add: unquote_not_quoted)
  next
    case True
    have "cstr (unquote b) = take (close_off (cstr b) k) (cstr b)"
      using assms(1) Some True by (rule cstr_unquote)
    with assms(2) have t: "take (length flag) (take (close_off (cstr b) k) (cstr b)) = flag"
      by (simp add: strncmp_eq_def)
    then have "length flag \<le> close_off (cstr b) k"
      by (metis length_take min.cobounded2 min.boundedE)
    with t show ?thesis by (simp add: strncmp_eq_def min_def)
  qed
qed

subsection \<open>The loop body of the string query\<close>

lemma string_body_unfold:
  "string_body flag i (r, s) =
     (if arg s i = flag \<and> i + 1 < length s then (Some (i + 1, 0), s)
      else if strncmp_eq (arg s i) flag then
        (case strchr (arg s i) (CHR ''='') of
           None \<Rightarrow> (r, s)
         | Some k \<Rightarrow> if quoted (arg s i) k then (Some (i, k + 2), s[i := unquote (s ! i)])
                     else (Some (i, k + 1), s))
      else (r, s))"
  by (auto simp: string_body_def Let_def arg_def unquote_def split: option.splits)

lemma snd_string_body:
  "snd (string_body flag i (r, s)) = (if mutates flag s i then s[i := unquote (s ! i)] else s)"
  by (auto simp: string_body_unfold mutates_def split: option.splits)

lemma length_snd_string_body: "length (snd (string_body flag i st)) = length (snd st)"
  by (cases st) (simp add: snd_string_body)

lemma mutates_cong:
  "arg s' i = arg s i \<Longrightarrow> length s' = length s \<Longrightarrow> mutates flag s' i = mutates flag s i"
  by (auto simp: mutates_def split: option.splits)

lemma wf_store_nth: "wf_store s = (\<forall>i < length s. wf_buf (s ! i))"
  by (simp add: wf_store_def list_all_length)

lemma wf_snd_string_body:
  assumes "wf_store s"
  shows "wf_store (snd (string_body flag i (r, s)))"
proof (cases "i < length s")
  case True
  with assms show ?thesis
    by (auto simp: snd_string_body wf_store_nth nth_list_update wf_buf_unquote)
next
  case False
  with assms show ?thesis
    by (simp add: snd_string_body list_update_beyond)
qed

subsection \<open>Runs of loop bodies\<close>

lemma run_Nil: "run [] st = st"
  by (simp add: run_def)

lemma run_Cons: "run (p # steps) st = run steps (string_body (fst p) (snd p) st)"
  by (simp add: run_def)

lemma run_append: "run (xs @ ys) st = run ys (run xs st)"
  by (simp add: run_def)

lemma run_snoc: "run (xs @ [p]) st = string_body (fst p) (snd p) (run xs st)"
  by (simp add: run_def)

lemma length_run: "length (snd (run steps st)) = length (snd st)"
  by (induction steps arbitrary: st) (simp_all add: run_Nil run_Cons length_snd_string_body)

lemma wf_run: "wf_store (snd st) \<Longrightarrow> wf_store (snd (run steps st))"
proof (induction steps arbitrary: st)
  case Nil
  then show ?case by (simp add: run_Nil)
next
  case (Cons p steps)
  have "wf_store (snd (string_body (fst p) (snd p) st))"
    using Cons.prems wf_snd_string_body [of "snd st" "fst p" "snd p" "fst st"] by simp
  then show ?case by (simp add: run_Cons Cons.IH)
qed

lemma string_scan_run: "string_scan flag st = run (map (Pair flag) [1..<length (snd st)]) st"
  by (simp add: string_scan_def run_def fold_map comp_def)

lemma fold_string_scan_run:
  "fold string_scan fs st = run (List.product fs [1..<length (snd st)]) st"
proof (induction fs arbitrary: st)
  case Nil
  then show ?case by (simp add: run_Nil)
next
  case (Cons f fs)
  have "fold string_scan (f # fs) st = fold string_scan fs (string_scan f st)" by simp
  also have "\<dots> = run (List.product fs [1..<length (snd (string_scan f st))]) (string_scan f st)"
    by (rule Cons.IH)
  also have "length (snd (string_scan f st)) = length (snd st)"
    by (simp add: string_scan_run length_run)
  finally show ?case
    by (simp add: string_scan_run run_append)
qed

lemma args_string_run:
  "args_string spec av = run (List.product (flags_of spec) [1..<length av]) (None, av)"
  by (simp add: args_string_def fold_string_scan_run)

lemma in_product_steps:
  "p \<in> set (List.product fs [1..<n]) \<Longrightarrow> fst p \<in> set fs \<and> 1 \<le> snd p \<and> snd p < n"
  by (cases p) auto

subsection \<open>After a run the store is settled\<close>

lemma run_settles:
  assumes "wf_store (snd st)" and "\<forall>p \<in> set steps. snd p < length (snd st)"
  shows "\<forall>p \<in> set steps. mutates (fst p) (snd (run steps st)) (snd p) \<longrightarrow>
           unquote (snd (run steps st) ! snd p) = snd (run steps st) ! snd p"
  using assms(2)
proof (induction steps rule: rev_induct)
  case Nil
  then show ?case by simp
next
  case (snoc q steps)
  let ?s0 = "snd (run steps st)"
  let ?s1 = "snd (run (steps @ [q]) st)"
  have wf0: "wf_store ?s0" using assms(1) by (rule wf_run)
  have len0: "length ?s0 = length (snd st)" by (rule length_run)
  have s1: "?s1 = (if mutates (fst q) ?s0 (snd q) then ?s0[snd q := unquote (?s0 ! snd q)] else ?s0)"
    using snd_string_body [of "fst q" "snd q" "fst (run steps st)" ?s0] by (simp add: run_snoc)
  have ih: "\<forall>p \<in> set steps. mutates (fst p) ?s0 (snd p) \<longrightarrow> unquote (?s0 ! snd p) = ?s0 ! snd p"
    using snoc by simp
  have rng: "\<forall>p \<in> set (steps @ [q]). snd p < length ?s0"
    using snoc.prems len0 by simp
  show ?case
  proof
    fix p assume p: "p \<in> set (steps @ [q])"
    with rng have pl: "snd p < length ?s0" by blast
    from rng have ql: "snd q < length ?s0" by simp
    show "mutates (fst p) ?s1 (snd p) \<longrightarrow> unquote (?s1 ! snd p) = ?s1 ! snd p"
    proof (cases "mutates (fst q) ?s0 (snd q)")
      case False
      then have e: "?s1 = ?s0" using s1 by simp
      show ?thesis
      proof (cases "p \<in> set steps")
        case True
        with ih e show ?thesis by simp
      next
        case False
        with p have "p = q" by simp
        with \<open>\<not> mutates (fst q) ?s0 (snd q)\<close> e show ?thesis by simp
      qed
    next
      case True
      then have e: "?s1 = ?s0[snd q := unquote (?s0 ! snd q)]" using s1 by simp
      show ?thesis
      proof (cases "snd p = snd q")
        case True
        have "wf_buf (?s0 ! snd q)" using wf0 ql by (simp add: wf_store_nth)
        then have "unquote (unquote (?s0 ! snd q)) = unquote (?s0 ! snd q)"
          by (rule unquote_idem)
        with True e ql show ?thesis by simp
      next
        case False
        then have n: "?s1 ! snd p = ?s0 ! snd p" using e by simp
        then have "mutates (fst p) ?s1 (snd p) = mutates (fst p) ?s0 (snd p)"
          using e by (intro mutates_cong) (simp_all add: arg_def)
        moreover have "p \<in> set steps" using p False by auto
        ultimately show ?thesis using ih n by simp
      qed
    qed
  qed
qed

lemma run_settled:
  assumes "\<forall>p \<in> set steps. mutates (fst p) s (snd p) \<longrightarrow> unquote (s ! snd p) = s ! snd p"
  shows "snd (run steps (r, s)) = s"
  using assms
proof (induction steps arbitrary: r)
  case Nil
  then show ?case by (simp add: run_Nil)
next
  case (Cons p steps)
  have "snd (string_body (fst p) (snd p) (r, s)) = s"
    using Cons.prems by (simp add: snd_string_body)
  then obtain r' where "string_body (fst p) (snd p) (r, s) = (r', s)"
    by (metis prod.collapse)
  then show ?case using Cons by (simp add: run_Cons)
qed

subsection \<open>Stores derived from the one the call started with\<close>

lemma derived_refl: "derived av F av"
  by (simp add: derived_def)

lemma derived_wf:
  assumes "wf_store av" and "derived av F s"
  shows "wf_store s"
  unfolding wf_store_nth
proof (intro allI impI)
  fix i assume "i < length s"
  with assms(2) have i: "i < length av" and "s ! i = av ! i \<or> s ! i = unquote (av ! i)"
    by (auto simp: derived_def)
  moreover have "wf_buf (av ! i)" using assms(1) i by (simp add: wf_store_nth)
  ultimately show "wf_buf (s ! i)" by (auto simp: wf_buf_unquote)
qed

lemma derived_step:
  assumes "wf_store av" and "derived av F s" and "flag \<in> F" and "1 \<le> i" and "i < length av"
  shows "derived av F (snd (string_body flag i (r, s)))"
proof (cases "mutates flag s i")
  case False
  with assms(2) show ?thesis by (simp add: snd_string_body)
next
  case True
  have wfi: "wf_buf (av ! i)" using assms(1,5) by (simp add: wf_store_nth)
  have len: "length s = length av" using assms(2) by (simp add: derived_def)
  have "s ! i = av ! i \<or> s ! i = unquote (av ! i)"
    using assms(2,5) by (auto simp: derived_def)
  then have u: "unquote (s ! i) = unquote (av ! i)"
    using unquote_idem [OF wfi] by auto
  have pre: "strncmp_eq (arg av i) flag"
  proof -
    have "strncmp_eq (cstr (s ! i)) flag" using True by (simp add: mutates_def arg_def)
    with \<open>s ! i = av ! i \<or> s ! i = unquote (av ! i)\<close> show ?thesis
      using strncmp_unquote_imp [OF wfi] by (auto simp: arg_def)
  qed
  have "derived av F (s[i := unquote (av ! i)])"
    unfolding derived_def
  proof (intro conjI allI impI)
    show "length (s[i := unquote (av ! i)]) = length av" using len by simp
  next
    fix j assume j: "j < length av"
    show "s[i := unquote (av ! i)] ! j = av ! j \<or>
          (1 \<le> j \<and> (\<exists>flag \<in> F. strncmp_eq (arg av j) flag) \<and>
           s[i := unquote (av ! i)] ! j = unquote (av ! j))"
    proof (cases "j = i")
      case True
      with assms(3,4,5) pre len show ?thesis by auto
    next
      case False
      with assms(2) j show ?thesis by (simp add: derived_def)
    qed
  qed
  with True u show ?thesis by (simp add: snd_string_body)
qed

lemma derived_run:
  assumes "wf_store av"
    and "\<forall>p \<in> set steps. fst p \<in> F \<and> 1 \<le> snd p \<and> snd p < length av"
    and "derived av F (snd st)"
  shows "derived av F (snd (run steps st))"
  using assms(2,3)
proof (induction steps arbitrary: st)
  case Nil
  then show ?case by (simp add: run_Nil)
next
  case (Cons p steps)
  have "derived av F (snd (string_body (fst p) (snd p) (fst st, snd st)))"
    using Cons.prems by (intro derived_step [OF assms(1)]) simp_all
  then show ?case using Cons by (simp add: run_Cons)
qed

subsection \<open>The pointer returned does not depend on the quotes erased so far\<close>

lemma derived_nth:
  "derived av F s \<Longrightarrow> i < length av \<Longrightarrow> s ! i = av ! i \<or> s ! i = unquote (av ! i)"
  by (auto simp: derived_def)

lemma derived_length: "derived av F s \<Longrightarrow> length s = length av"
  by (simp add: derived_def)

lemma derived_decisions:
  assumes "wf_store av" and "derived av F s" and "\<not> has_eq_quote flag" and "i < length av"
  shows "(arg s i = flag) = (arg av i = flag)"
    and "strncmp_eq (arg s i) flag = strncmp_eq (arg av i) flag"
    and "strchr (arg s i) (CHR ''='') = strchr (arg av i) (CHR ''='')"
    and "strchr (arg av i) (CHR ''='') = Some k \<Longrightarrow> quoted (arg s i) k = quoted (arg av i) k"
proof -
  have wfi: "wf_buf (av ! i)" using assms(1,4) by (simp add: wf_store_nth)
  note d = derived_nth [OF assms(2,4)]
  show "(arg s i = flag) = (arg av i = flag)"
    using d cstr_unquote_eq_flag [OF wfi assms(3)] by (auto simp: arg_def)
  show "strncmp_eq (arg s i) flag = strncmp_eq (arg av i) flag"
    using d strncmp_unquote [OF wfi assms(3)] by (auto simp: arg_def)
  show "strchr (arg s i) (CHR ''='') = strchr (arg av i) (CHR ''='')"
    using d strchr_unquote [OF wfi] by (auto simp: arg_def)
  show "strchr (arg av i) (CHR ''='') = Some k \<Longrightarrow> quoted (arg s i) k = quoted (arg av i) k"
    using d quoted_unquote [OF wfi, of k] by (auto simp: arg_def)
qed

lemma fst_string_body_derived:
  assumes "wf_store av" and "derived av F s" and "\<not> has_eq_quote flag" and "i < length av"
  shows "fst (string_body flag i (r, s)) = fst (string_body flag i (r, av))"
proof -
  note d = derived_decisions [OF assms]
  have l: "length s = length av" using assms(2) by (rule derived_length)
  show ?thesis
  proof (cases "strchr (arg av i) (CHR ''='')")
    case None
    then show ?thesis using d(1,2,3) l by (simp add: string_body_unfold)
  next
    case (Some k)
    then show ?thesis using d(1,2,3) d(4) [OF Some] l by (simp add: string_body_unfold)
  qed
qed

lemma mutates_derived:
  assumes "wf_store av" and "derived av F s" and "\<not> has_eq_quote flag" and "i < length av"
  shows "mutates flag s i = mutates flag av i"
proof -
  note d = derived_decisions [OF assms]
  have l: "length s = length av" using assms(2) by (rule derived_length)
  show ?thesis
  proof (cases "strchr (arg av i) (CHR ''='')")
    case None
    then show ?thesis using d(1,2,3) l by (simp add: mutates_def)
  next
    case (Some k)
    then show ?thesis using d(1,2,3) d(4) [OF Some] l by (simp add: mutates_def)
  qed
qed

lemma fst_run_derived:
  assumes "wf_store av"
    and "\<forall>p \<in> set steps. fst p \<in> F \<and> 1 \<le> snd p \<and> snd p < length av \<and> \<not> has_eq_quote (fst p)"
    and "derived av F s" and "derived av F t"
  shows "fst (run steps (r, s)) = fst (run steps (r, t))"
  using assms(2,3,4)
proof (induction steps arbitrary: r s t)
  case Nil
  then show ?case by (simp add: run_Nil)
next
  case (Cons p steps)
  let ?f = "fst p" and ?i = "snd p"
  from Cons.prems(1) have p: "?f \<in> F" "1 \<le> ?i" "?i < length av" "\<not> has_eq_quote ?f"
    by simp_all
  have "fst (string_body ?f ?i (r, s)) = fst (string_body ?f ?i (r, t))"
    using fst_string_body_derived [OF assms(1) Cons.prems(2) p(4,3)]
      fst_string_body_derived [OF assms(1) Cons.prems(3) p(4,3)] by simp
  moreover have "derived av F (snd (string_body ?f ?i (r, s)))"
    using assms(1) Cons.prems(2) p(1,2,3) by (rule derived_step)
  moreover have "derived av F (snd (string_body ?f ?i (r, t)))"
    using assms(1) Cons.prems(3) p(1,2,3) by (rule derived_step)
  ultimately have "fst (run steps (string_body ?f ?i (r, s)))
                 = fst (run steps (string_body ?f ?i (r, t)))"
    using Cons.IH [of "snd (string_body ?f ?i (r, s))" "snd (string_body ?f ?i (r, t))"
        "fst (string_body ?f ?i (r, s))"] Cons.prems(1)
    by (metis list.set_intros(2) prod.collapse)
  then show ?case by (simp add: run_Cons)
qed

lemma derived_args_string:
  assumes "wf_store av"
  shows "derived av (set (flags_of spec)) (snd (args_string spec av))"
  unfolding args_string_run
  by (rule derived_run [OF assms]) (auto simp: derived_refl)

lemma args_string_twice:
  assumes "wf_store av" and "\<forall>flag \<in> set (flags_of spec). \<not> has_eq_quote flag"
  shows "args_string spec (snd (args_string spec av)) = args_string spec av"
proof -
  let ?steps = "List.product (flags_of spec) [1..<length av]"
  let ?F = "set (flags_of spec)"
  let ?s1 = "snd (run ?steps (None, av))"
  have len: "length ?s1 = length av" by (simp add: length_run)
  have d1: "derived av ?F ?s1"
    using derived_args_string [OF assms(1), of spec] by (simp add: args_string_run)
  have steps: "\<forall>p \<in> set ?steps. fst p \<in> ?F \<and> 1 \<le> snd p \<and> snd p < length av \<and> \<not> has_eq_quote (fst p)"
    using assms(2) by auto
  have 1: "fst (run ?steps (None, ?s1)) = fst (run ?steps (None, av))"
    using assms(1) steps d1 derived_refl by (rule fst_run_derived)
  have "\<forall>p \<in> set ?steps. mutates (fst p) ?s1 (snd p) \<longrightarrow> unquote (?s1 ! snd p) = ?s1 ! snd p"
    by (rule run_settles) (use assms(1) in auto)
  then have 2: "snd (run ?steps (None, ?s1)) = ?s1"
    by (rule run_settled)
  have "run ?steps (None, ?s1) = run ?steps (None, av)"
    using 1 2 by (simp add: prod_eq_iff)
  then show ?thesis
    by (simp add: args_string_run length_run)
qed

lemma args_string_erases:
  assumes "wf_store av" and "1 \<le> i" and "i < length av"
    and "flag \<in> set (flags_of spec)" and "\<not> has_eq_quote flag" and "mutates flag av i"
  shows "snd (args_string spec av) ! i = unquote (av ! i)"
proof -
  let ?steps = "List.product (flags_of spec) [1..<length av]"
  let ?s1 = "snd (run ?steps (None, av))"
  have d1: "derived av (set (flags_of spec)) ?s1"
    using derived_args_string [OF assms(1), of spec] by (simp add: args_string_run)
  have "(flag, i) \<in> set ?steps" using assms(2,3,4) by simp
  moreover have "\<forall>p \<in> set ?steps. mutates (fst p) ?s1 (snd p) \<longrightarrow> unquote (?s1 ! snd p) = ?s1 ! snd p"
    by (rule run_settles) (use assms(1) in auto)
  ultimately have "mutates flag ?s1 i \<longrightarrow> unquote (?s1 ! i) = ?s1 ! i"
    by fastforce
  moreover have "mutates flag ?s1 i"
    using mutates_derived [OF assms(1) d1 assms(5,3)] assms(6) by simp
  ultimately have u: "unquote (?s1 ! i) = ?s1 ! i" by simp
  have "?s1 ! i = av ! i \<or> ?s1 ! i = unquote (av ! i)"
    using d1 assms(3) by (rule derived_nth)
  with u have "?s1 ! i = unquote (av ! i)" by auto
  then show ?thesis by (simp add: args_string_run)
qed

subsection \<open>What a call of the string query changes\<close>

lemma nth_cstr_end: "wf_buf b \<Longrightarrow> b ! length (cstr b) = NUL"
proof -
  assume "wf_buf b"
  then obtain rest where "b = cstr b @ NUL # rest"
    using wf_buf_split by blast
  then have "b ! length (cstr b) = (cstr b @ NUL # rest) ! length (cstr b)" by simp
  then show ?thesis by (simp only: nth_append_length)
qed

lemma unquote_changes:
  assumes "wf_buf b" and "unquote b \<noteq> b"
  shows "\<exists>k. strchr (cstr b) (CHR ''='') = Some k \<and> quoted (cstr b) k
           \<and> close_off (cstr b) k < length (cstr b)
           \<and> b ! close_off (cstr b) k = CHR 0x22
           \<and> unquote b = b[close_off (cstr b) k := NUL]"
proof -
  from assms(2) obtain k where k: "strchr (cstr b) (CHR ''='') = Some k" and q: "quoted (cstr b) k"
    by (auto simp: unquote_def split: option.splits if_splits)
  let ?e = "close_off (cstr b) k"
  have u: "unquote b = b[?e := NUL]" using k q by (rule unquote_quoted)
  have "k + 2 \<le> length (cstr b)" using q by (simp add: quoted_def)
  then have le: "?e \<le> length (cstr b)" using close_off_bounds by blast
  have "?e \<noteq> length (cstr b)"
  proof
    assume "?e = length (cstr b)"
    then have "b[?e := NUL] = b"
      using nth_cstr_end [OF assms(1)] by (metis list_update_id)
    with u assms(2) show False by simp
  qed
  with le have lt: "?e < length (cstr b)" by simp
  then have "b ! ?e = CHR 0x22"
    using close_off_nth [of "cstr b" k] by (simp add: nth_cstr)
  with k q lt u show ?thesis by blast
qed

lemma string_at_unquote:
  assumes "wf_buf b" and "strchr (cstr b) (CHR ''='') = Some k" and "quoted (cstr b) k"
    and "s ! i = unquote b"
  shows "string_at s (i, k + 2) = takeWhile (\<lambda>c. c \<noteq> CHR 0x22) (drop (k + 2) (cstr b))"
proof -
  let ?e = "close_off (cstr b) k"
  have c: "cstr (unquote b) = take ?e (cstr b)"
    using assms(1,2,3) by (rule cstr_unquote)
  have "k + 2 \<le> length (cstr b)" using assms(3) by (simp add: quoted_def)
  then have "k + 2 \<le> ?e" "?e \<le> length (cstr b)"
    using close_off_bounds [of k "cstr b"] by simp_all
  then have "k + 2 \<le> length (cstr (unquote b))" using c by simp
  then have "cstr (drop (k + 2) (unquote b)) = drop (k + 2) (cstr (unquote b))"
    by (rule cstr_drop)
  also have "\<dots> = takeWhile (\<lambda>c. c \<noteq> CHR 0x22) (drop (k + 2) (cstr b))"
    unfolding c by (rule drop_take_close_off)
  finally show ?thesis using assms(4) by (simp add: string_at_def)
qed

lemma string_at_plain:
  "k + 1 \<le> length (arg s i) \<Longrightarrow> string_at s (i, k + 1) = drop (k + 1) (arg s i)"
  by (simp add: string_at_def arg_def cstr_drop)

lemma string_at_start: "string_at s (i, 0) = arg s i"
  by (simp add: string_at_def arg_def)

subsection \<open>The step that assigns last\<close>

lemma fst_run_pure:
  assumes "wf_store av"
    and "\<forall>p \<in> set steps. fst p \<in> F \<and> 1 \<le> snd p \<and> snd p < length av \<and> \<not> has_eq_quote (fst p)"
    and "derived av F s"
  shows "fst (run steps (r, s)) = fold (\<lambda>p r. fst (string_body (fst p) (snd p) (r, av))) steps r"
  using assms(2,3)
proof (induction steps arbitrary: r s)
  case Nil
  then show ?case by (simp add: run_Nil)
next
  case (Cons p steps)
  let ?f = "fst p" and ?i = "snd p"
  from Cons.prems(1) have p: "?f \<in> F" "1 \<le> ?i" "?i < length av" "\<not> has_eq_quote ?f"
    by simp_all
  obtain r' s' where b: "string_body ?f ?i (r, s) = (r', s')"
    by (cases "string_body ?f ?i (r, s)")
  have "fst (string_body ?f ?i (r, s)) = fst (string_body ?f ?i (r, av))"
    using assms(1) Cons.prems(2) p(4,3) by (rule fst_string_body_derived)
  then have 1: "r' = fst (string_body ?f ?i (r, av))" using b by simp
  have "derived av F (snd (string_body ?f ?i (r, s)))"
    using assms(1) Cons.prems(2) p(1,2,3) by (rule derived_step)
  then have 2: "derived av F s'" using b by simp
  have rest: "\<forall>p \<in> set steps. fst p \<in> F \<and> 1 \<le> snd p \<and> snd p < length av \<and> \<not> has_eq_quote (fst p)"
    using Cons.prems(1) by simp
  have "fst (run steps (r', s')) = fold (\<lambda>p r. fst (string_body (fst p) (snd p) (r, av))) steps r'"
    using rest 2 by (rule Cons.IH)
  then show ?case using 1 b by (simp add: run_Cons)
qed

lemma product_split:
  "List.product (fs1 @ f # fs2) xs = List.product fs1 xs @ map (Pair f) xs @ List.product fs2 xs"
  by (induction fs1) simp_all

lemma num_body_not_assigns:
  "\<not> num_assigns flag av i \<Longrightarrow> num_body conv flag av i r = r"
  by (auto simp: num_assigns_def num_body_def Let_def split: if_splits option.splits)

lemma string_body_not_assigns:
  "\<not> string_assigns flag s i \<Longrightarrow> string_body flag i (r, s) = (r, s)"
  by (auto simp: string_assigns_def string_body_unfold split: if_splits option.splits)

lemma num_last_assign:
  assumes "1 \<le> j" and "j < length av" and "flags = fs1 @ flag # fs2"
    and "\<forall>r. num_body conv flag av j r = x"
    and "\<forall>m. j < m \<and> m < length av \<longrightarrow> \<not> num_assigns flag av m"
    and "\<forall>g \<in> set fs2. \<forall>m. 1 \<le> m \<and> m < length av \<and> (g, m) \<noteq> (flag, j) \<longrightarrow> \<not> num_assigns g av m"
  shows "fold (num_scan conv av) flags r = x"
proof -
  have "\<forall>m r. j < m \<and> m < length av \<longrightarrow> num_body conv flag av m r = r"
    using assms(5) by (simp add: num_body_not_assigns)
  then have "num_scan conv av flag r' =
           num_body conv flag av j (fold (num_body conv flag av) [1..<j] r')" for r'
    using assms(1,2) by (intro num_scan_last) simp_all
  then have here: "num_scan conv av flag r' = x" for r'
    using assms(4) by simp
  have "num_body conv g av m x = x" if "g \<in> set fs2" and "1 \<le> m" and "m < length av" for g m
  proof (cases "(g, m) = (flag, j)")
    case True
    then show ?thesis using assms(4) by simp
  next
    case False
    with that have "1 \<le> m \<and> m < length av \<and> (g, m) \<noteq> (flag, j)" by simp
    with assms(6) that(1) have "\<not> num_assigns g av m" by (rule_tac assms(6) [rule_format])
    then show ?thesis by (rule num_body_not_assigns)
  qed
  then have "num_scan conv av g x = x" if "g \<in> set fs2" for g
    using that by (intro num_scan_unchanged) simp
  then have "fold (num_scan conv av) fs2 x = x"
    by (intro fold_unchanged) simp
  then show ?thesis
    by (simp add: assms(3) here)
qed

lemma string_last_assign:
  assumes "wf_store av" and "1 \<le> i" and "i < length av"
    and "flags_of spec = fs1 @ flag # fs2"
    and "\<forall>g \<in> set (flag # fs2). \<not> has_eq_quote g"
    and "\<forall>r. fst (string_body flag i (r, av)) = x"
    and "\<forall>m. i < m \<and> m < length av \<longrightarrow> \<not> string_assigns flag av m"
    and "\<forall>g \<in> set fs2. \<forall>m. 1 \<le> m \<and> m < length av \<and> (g, m) \<noteq> (flag, i) \<longrightarrow> \<not> string_assigns g av m"
  shows "fst (args_string spec av) = x"
proof -
  let ?n = "length av"
  let ?F = "set (flags_of spec)"
  let ?A = "List.product fs1 [1..<?n] @ map (Pair flag) [1..<i]"
  let ?B = "map (Pair flag) [Suc i..<?n] @ List.product fs2 [1..<?n]"
  have steps: "List.product (flags_of spec) [1..<?n] = ?A @ (flag, i) # ?B"
    using assms(2,3,4) upt_split_at [of i ?n] by (simp add: product_split)
  obtain r1 s1 where st1: "run ?A (None, av) = (r1, s1)" by (cases "run ?A (None, av)")
  have "derived av ?F (snd (run ?A (None, av)))"
    using assms(1,3,4) by (intro derived_run) (auto simp: derived_refl)
  then have d1: "derived av ?F s1" using st1 by simp
  obtain r2 s2 where st2: "string_body flag i (r1, s1) = (r2, s2)"
    by (cases "string_body flag i (r1, s1)")
  have hf: "\<not> has_eq_quote flag" using assms(5) by simp
  have "fst (string_body flag i (r1, s1)) = fst (string_body flag i (r1, av))"
    using assms(1) d1 hf assms(3) by (rule fst_string_body_derived)
  then have r2: "r2 = x" using st2 assms(6) by simp
  have "derived av ?F (snd (string_body flag i (r1, s1)))"
    using assms(1) d1 _ assms(2,3) by (rule derived_step) (simp add: assms(4))
  then have d2: "derived av ?F s2" using st2 by simp
  have ok: "\<forall>p \<in> set ?B. fst p \<in> ?F \<and> 1 \<le> snd p \<and> snd p < ?n \<and> \<not> has_eq_quote (fst p)"
    using assms(2,4,5) by auto
  have "fst (run ?B (x, s2)) = fold (\<lambda>p r. fst (string_body (fst p) (snd p) (r, av))) ?B x"
    using assms(1) ok d2 by (rule fst_run_pure)
  also have "\<dots> = x"
  proof (rule fold_unchanged, rule ballI)
    fix p assume p: "p \<in> set ?B"
    obtain g m where gm: "p = (g, m)" by (cases p)
    show "fst (string_body (fst p) (snd p) (x, av)) = x"
    proof (cases "(g, m) = (flag, i)")
      case True
      then show ?thesis using assms(6) gm by simp
    next
      case False
      from p gm have "(g = flag \<and> i < m \<and> m < ?n) \<or> (g \<in> set fs2 \<and> 1 \<le> m \<and> m < ?n)"
        by auto
      then have "\<not> string_assigns g av m"
      proof
        assume "g = flag \<and> i < m \<and> m < ?n"
        then show ?thesis using assms(7) by simp
      next
        assume a: "g \<in> set fs2 \<and> 1 \<le> m \<and> m < ?n"
        with False have "1 \<le> m \<and> m < ?n \<and> (g, m) \<noteq> (flag, i)" by simp
        with a show ?thesis by (rule_tac assms(8) [rule_format]) simp_all
      qed
      then show ?thesis by (simp add: gm string_body_not_assigns)
    qed
  qed
  finally have "fst (run ?B (x, s2)) = x" .
  moreover have "args_string spec av = run ?B (string_body flag i (run ?A (None, av)))"
    unfolding args_string_run steps by (simp only: run_append run_Cons fst_conv snd_conv)
  ultimately show ?thesis
    using st1 st2 r2 by simp
qed

lemma string_result_eq_form_last:
  assumes "wf_store av" and "1 \<le> j" and "j < length av"
    and "flags_of spec = fs1 @ flag # fs2"
    and "\<forall>g \<in> set (flag # fs2). \<not> has_eq_quote g"
    and "\<not> (arg av j = flag \<and> j + 1 < length av)" and "strncmp_eq (arg av j) flag"
    and "strchr (arg av j) (CHR ''='') = Some k"
    and "\<forall>m. j < m \<and> m < length av \<longrightarrow> \<not> string_assigns flag av m"
    and "\<forall>g \<in> set fs2. \<forall>m. 1 \<le> m \<and> m < length av \<and> (g, m) \<noteq> (flag, j) \<longrightarrow> \<not> string_assigns g av m"
  shows "string_result spec av =
           Some (if quoted (arg av j) k
                 then takeWhile (\<lambda>c. c \<noteq> CHR 0x22) (drop (k + 2) (arg av j))
                 else drop (k + 1) (arg av j))"
proof -
  let ?s = "snd (args_string spec av)"
  have wfj: "wf_buf (av ! j)" using assms(1,3) by (simp add: wf_store_nth)
  have mem: "flag \<in> set (flags_of spec)" by (simp add: assms(4))
  have hf: "\<not> has_eq_quote flag" using assms(5) by simp
  show ?thesis
  proof (cases "quoted (arg av j) k")
    case True
    have "\<forall>r. fst (string_body flag j (r, av)) = Some (j, k + 2)"
      using assms(6,7,8) True by (simp add: string_body_unfold)
    with assms(1,2,3,4,5) have p: "fst (args_string spec av) = Some (j, k + 2)"
      using assms(9,10) by (rule string_last_assign)
    have "mutates flag av j"
      using assms(6,7,8) True by (simp add: mutates_def)
    with assms(1,2,3) mem hf have "?s ! j = unquote (av ! j)"
      by (rule args_string_erases)
    then have "string_at ?s (j, k + 2) = takeWhile (\<lambda>c. c \<noteq> CHR 0x22) (drop (k + 2) (cstr (av ! j)))"
      using wfj assms(8) True by (intro string_at_unquote) (simp_all add: arg_def)
    with p True show ?thesis
      by (cases "args_string spec av") (simp add: string_result_def arg_def)
  next
    case False
    have "\<forall>r. fst (string_body flag j (r, av)) = Some (j, k + 1)"
      using assms(6,7,8) False by (simp add: string_body_unfold)
    with assms(1,2,3,4,5) have p: "fst (args_string spec av) = Some (j, k + 1)"
      using assms(9,10) by (rule string_last_assign)
    have "derived av (set (flags_of spec)) ?s"
      using assms(1) by (rule derived_args_string)
    then have "?s ! j = av ! j \<or> ?s ! j = unquote (av ! j)"
      using assms(3) by (rule derived_nth)
    moreover have "unquote (av ! j) = av ! j"
      using assms(8) False by (intro unquote_not_quoted) (simp_all add: arg_def)
    ultimately have e: "arg ?s j = arg av j" by (auto simp: arg_def)
    have "k < length (arg av j)" using assms(8) by (rule strchr_Some(1))
    then have "string_at ?s (j, k + 1) = drop (k + 1) (arg ?s j)"
      using e by (intro string_at_plain) simp
    with p False e show ?thesis
      by (cases "args_string spec av") (simp add: string_result_def)
  qed
qed

lemma string_result_exact_last:
  assumes "wf_store av" and "1 \<le> i" and "i + 1 < length av"
    and "flags_of spec = fs1 @ flag # fs2"
    and "\<forall>g \<in> set (flag # fs2). \<not> has_eq_quote g"
    and "arg av i = flag"
    and "\<forall>m. i < m \<and> m < length av \<longrightarrow> \<not> string_assigns flag av m"
    and "\<forall>g \<in> set fs2. \<forall>m. 1 \<le> m \<and> m < length av \<and> (g, m) \<noteq> (flag, i) \<longrightarrow> \<not> string_assigns g av m"
  shows "fst (args_string spec av) = Some (i + 1, 0)"
    and "string_result spec av = Some (arg (snd (args_string spec av)) (i + 1))"
    and "snd (args_string spec av) ! (i + 1) = av ! (i + 1)
         \<or> snd (args_string spec av) ! (i + 1) = unquote (av ! (i + 1))"
proof -
  have i: "i < length av" using assms(3) by simp
  have "\<forall>r. fst (string_body flag i (r, av)) = Some (i + 1, 0)"
    using assms(3,6) by (simp add: string_body_exact)
  with assms(1,2) i assms(4,5) show p: "fst (args_string spec av) = Some (i + 1, 0)"
    using assms(7,8) by (rule string_last_assign)
  then show "string_result spec av = Some (arg (snd (args_string spec av)) (i + 1))"
    by (cases "args_string spec av") (simp add: string_result_def string_at_start)
  have "derived av (set (flags_of spec)) (snd (args_string spec av))"
    using assms(1) by (rule derived_args_string)
  then show "snd (args_string spec av) ! (i + 1) = av ! (i + 1)
         \<or> snd (args_string spec av) ! (i + 1) = unquote (av ! (i + 1))"
    using assms(3) by (rule derived_nth)
qed

section \<open>C1: which occurrence decides\<close>

text \<open>
  C1, as amended.  The specification says that an \<open>=\<close> form token standing later in the
  vector than an exact-match token decides \<open>args_int\<close>, \<open>args_float\<close>, \<open>args_string\<close> and
  the \<open>=\<close> form of \<open>args_bool\<close>, being scanned last with no early exit.  That fails
  (\<open>match_priority_counterexample\<close>): the outer loop goes through the alias tokens in the
  order of the query string and the inner one through the arguments, so the \<open>=\<close> form
  token of an alias listed first is scanned before the exact match of an alias listed
  after it; and \<open>args_bool\<close> returns from its \<open>=\<close> form branch as well as from the exact
  one, so the first \<open>=\<close> form token with a truthy or falsy suffix decides, not the last.

  What holds.  A step is an alias token and an index from 1 on; the steps are scanned
  token by token in the order of the query string, and for each token by rising index.
  The loop body of \<open>args_int\<close> and \<open>args_float\<close> assigns \<open>result\<close> at a step when the
  argument is the token and is followed by an argument that starts with a digit, or when
  it begins with the token, is not the token, and holds an \<open>=\<close>; that of \<open>args_string\<close>
  when the argument is the token and has a follower, or else begins with the token and
  holds an \<open>=\<close>.  Take an \<open>=\<close> form occurrence: an argument that begins with an alias
  token, is not the token, and holds an \<open>=\<close>.  When no step scanned after it assigns (the
  same token at no later index, the tokens listed after it at no index), \<open>args_int\<close> and
  \<open>args_float\<close> return the conversion of what follows the first \<open>=\<close>, and \<open>args_string\<close>
  returns what follows it, or the run inside the quotes when a quote comes right after
  the \<open>=\<close>; for \<open>args_string\<close> the token and those listed after it must hold no \<open>=\<close>
  followed by a quote.  What the steps scanned before have assigned, exact matches among
  them, does not matter.  \<open>args_bool\<close> returns what its loop body returns at the first
  step, in scan order, where the body returns; at an exact match the body always returns.
\<close>

theorem match_priority:
  fixes atof :: "string \<Rightarrow> 'd::zero"
  shows "(1 \<le> j \<and> j < length av \<and> flags_of spec = earlier @ flag # later
          \<and> arg av j \<noteq> flag \<and> strncmp_eq (arg av j) flag
          \<and> strchr (arg av j) (CHR ''='') = Some k
          \<and> (\<forall>m. j < m \<and> m < length av \<longrightarrow> \<not> num_assigns flag av m)
          \<and> (\<forall>g \<in> set later. \<forall>m. 1 \<le> m \<and> m < length av \<and> (g, m) \<noteq> (flag, j) \<longrightarrow>
                \<not> num_assigns g av m)
        \<longrightarrow> args_int spec av = atoi (drop (k + 1) (arg av j))
          \<and> args_float atof spec av = atof (drop (k + 1) (arg av j)))
     \<and> (wf_store av \<and> 1 \<le> j \<and> j < length av \<and> flags_of spec = earlier @ flag # later
          \<and> arg av j \<noteq> flag \<and> strncmp_eq (arg av j) flag
          \<and> strchr (arg av j) (CHR ''='') = Some k
          \<and> (\<forall>g \<in> set (flag # later). \<not> has_eq_quote g)
          \<and> (\<forall>m. j < m \<and> m < length av \<longrightarrow> \<not> string_assigns flag av m)
          \<and> (\<forall>g \<in> set later. \<forall>m. 1 \<le> m \<and> m < length av \<and> (g, m) \<noteq> (flag, j) \<longrightarrow>
                \<not> string_assigns g av m)
        \<longrightarrow> string_result spec av =
              Some (if quoted (arg av j) k
                    then takeWhile (\<lambda>c. c \<noteq> CHR 0x22) (drop (k + 2) (arg av j))
                    else drop (k + 1) (arg av j)))
     \<and> (1 \<le> i \<and> i < length av \<and> flags_of spec = earlier @ g # later
          \<and> (\<forall>h \<in> set earlier. \<forall>m. 1 \<le> m \<and> m < length av \<longrightarrow> bool_body h av m = None)
          \<and> (\<forall>m. 1 \<le> m \<and> m < i \<longrightarrow> bool_body g av m = None)
          \<and> bool_body g av i = Some b
        \<longrightarrow> args_bool spec av = b)
     \<and> (arg av i = g \<longrightarrow> bool_body g av i \<noteq> None)"
proof -
  have 1: "1 \<le> j \<and> j < length av \<and> flags_of spec = earlier @ flag # later
          \<and> arg av j \<noteq> flag \<and> strncmp_eq (arg av j) flag
          \<and> strchr (arg av j) (CHR ''='') = Some k
          \<and> (\<forall>m. j < m \<and> m < length av \<longrightarrow> \<not> num_assigns flag av m)
          \<and> (\<forall>g \<in> set later. \<forall>m. 1 \<le> m \<and> m < length av \<and> (g, m) \<noteq> (flag, j) \<longrightarrow>
                \<not> num_assigns g av m)
        \<longrightarrow> args_int spec av = atoi (drop (k + 1) (arg av j))
          \<and> args_float atof spec av = atof (drop (k + 1) (arg av j))"
  proof (intro impI, elim conjE)
    assume h: "1 \<le> j" "j < length av" "flags_of spec = earlier @ flag # later"
      "arg av j \<noteq> flag" "strncmp_eq (arg av j) flag" "strchr (arg av j) (CHR ''='') = Some k"
      "\<forall>m. j < m \<and> m < length av \<longrightarrow> \<not> num_assigns flag av m"
      "\<forall>g \<in> set later. \<forall>m. 1 \<le> m \<and> m < length av \<and> (g, m) \<noteq> (flag, j) \<longrightarrow>
                \<not> num_assigns g av m"
    have body: "\<forall>r. num_body conv flag av j r = conv (drop (k + 1) (arg av j))"
      for conv :: "string \<Rightarrow> 'x"
      using h(4,5,6) by (simp add: num_body_eq_form)
    have a: "args_int spec av = atoi (drop (k + 1) (arg av j))"
      unfolding args_int_def using h(1,2,3) body h(7,8) by (rule num_last_assign)
    have b: "args_float atof spec av = atof (drop (k + 1) (arg av j))"
      unfolding args_float_def using h(1,2,3) body h(7,8) by (rule num_last_assign)
    from a b show "args_int spec av = atoi (drop (k + 1) (arg av j))
          \<and> args_float atof spec av = atof (drop (k + 1) (arg av j))"
      by (rule conjI)
  qed
  have 2: "wf_store av \<and> 1 \<le> j \<and> j < length av \<and> flags_of spec = earlier @ flag # later
          \<and> arg av j \<noteq> flag \<and> strncmp_eq (arg av j) flag
          \<and> strchr (arg av j) (CHR ''='') = Some k
          \<and> (\<forall>g \<in> set (flag # later). \<not> has_eq_quote g)
          \<and> (\<forall>m. j < m \<and> m < length av \<longrightarrow> \<not> string_assigns flag av m)
          \<and> (\<forall>g \<in> set later. \<forall>m. 1 \<le> m \<and> m < length av \<and> (g, m) \<noteq> (flag, j) \<longrightarrow>
                \<not> string_assigns g av m)
        \<longrightarrow> string_result spec av =
              Some (if quoted (arg av j) k
                    then takeWhile (\<lambda>c. c \<noteq> CHR 0x22) (drop (k + 2) (arg av j))
                    else drop (k + 1) (arg av j))"
  proof (intro impI, elim conjE)
    assume h: "wf_store av" "1 \<le> j" "j < length av" "flags_of spec = earlier @ flag # later"
      "arg av j \<noteq> flag" "strncmp_eq (arg av j) flag" "strchr (arg av j) (CHR ''='') = Some k"
      "\<forall>g \<in> set (flag # later). \<not> has_eq_quote g"
      "\<forall>m. j < m \<and> m < length av \<longrightarrow> \<not> string_assigns flag av m"
      "\<forall>g \<in> set later. \<forall>m. 1 \<le> m \<and> m < length av \<and> (g, m) \<noteq> (flag, j) \<longrightarrow>
                \<not> string_assigns g av m"
    from h(5) have ne: "\<not> (arg av j = flag \<and> j + 1 < length av)" by simp
    show "string_result spec av =
              Some (if quoted (arg av j) k
                    then takeWhile (\<lambda>c. c \<noteq> CHR 0x22) (drop (k + 2) (arg av j))
                    else drop (k + 1) (arg av j))"
      using h(1,2,3,4,8) ne h(6,7,9,10) by (rule string_result_eq_form_last)
  qed
  have 3: "1 \<le> i \<and> i < length av \<and> flags_of spec = earlier @ g # later
          \<and> (\<forall>h \<in> set earlier. \<forall>m. 1 \<le> m \<and> m < length av \<longrightarrow> bool_body h av m = None)
          \<and> (\<forall>m. 1 \<le> m \<and> m < i \<longrightarrow> bool_body g av m = None)
          \<and> bool_body g av i = Some b
        \<longrightarrow> args_bool spec av = b"
  proof (intro impI, elim conjE)
    assume h: "1 \<le> i" "i < length av" "flags_of spec = earlier @ g # later"
      "\<forall>h \<in> set earlier. \<forall>m. 1 \<le> m \<and> m < length av \<longrightarrow> bool_body h av m = None"
      "\<forall>m. 1 \<le> m \<and> m < i \<longrightarrow> bool_body g av m = None"
      "bool_body g av i = Some b"
    show "args_bool spec av = b"
      unfolding args_bool_def h(3) using h(4,5,1,2,6) by (rule bool_first_decides)
  qed
  have 4: "arg av i = g \<longrightarrow> bool_body g av i \<noteq> None"
    by (simp add: bool_body_exact)
  show ?thesis
    by (rule conjI [OF 1 conjI [OF 2 conjI [OF 3 4]]])
qed

theorem match_priority_witness:
  "args_int ''-c|--count'' (args_parse [''prog'', ''-c'', ''5'', ''-c=7'']) = 7
   \<and> string_result ''-c|--count'' (args_parse [''prog'', ''-c'', ''5'', ''-c=7'']) = Some ''7''
   \<and> args_bool ''-o|--opt'' (args_parse [''prog'', ''--opt'', ''off'', ''--opt=true'']) = False"
proof -
  define av where "av = args_parse [''prog'', ''-c'', ''5'', ''-c=7'']"
  define bv where "bv = args_parse [''prog'', ''--opt'', ''off'', ''--opt=true'']"
  define spec where "spec = ''-c|--count''"
  define bspec where "bspec = ''-o|--opt''"
  have w: "wf_store av" unfolding av_def by code_simp
  have l: "length av = 4" and lb: "length bv = 4" by (simp_all add: av_def bv_def args_parse_def)
  have f: "flags_of spec = [] @ ''-c'' # [''--count'']" unfolding spec_def by code_simp
  have h: "arg av 3 \<noteq> ''-c''" "strncmp_eq (arg av 3) ''-c''"
    "strchr (arg av 3) (CHR ''='') = Some 2"
    unfolding av_def by code_simp+
  have j: "(1::nat) \<le> 3" "3 < length av" by (simp_all add: l)
  have n1: "\<forall>m. 3 < m \<and> m < length av \<longrightarrow> \<not> num_assigns ''-c'' av m"
    unfolding l by auto
  have s1: "\<forall>m. 3 < m \<and> m < length av \<longrightarrow> \<not> string_assigns ''-c'' av m"
    unfolding l by auto
  have na: "\<not> num_assigns ''--count'' av 1" "\<not> num_assigns ''--count'' av 2"
    "\<not> num_assigns ''--count'' av 3"
    unfolding av_def by code_simp+
  have sa: "\<not> string_assigns ''--count'' av 1" "\<not> string_assigns ''--count'' av 2"
    "\<not> string_assigns ''--count'' av 3"
    unfolding av_def by code_simp+
  have n2: "\<forall>g \<in> set [''--count'']. \<forall>m. 1 \<le> m \<and> m < length av \<and> (g, m) \<noteq> (''-c'', 3) \<longrightarrow>
                \<not> num_assigns g av m"
  proof (intro ballI allI impI)
    fix g m assume "g \<in> set [''--count'']" and "1 \<le> m \<and> m < length av \<and> (g, m) \<noteq> (''-c'', 3)"
    then have "g = ''--count''" and "m = 1 \<or> m = 2 \<or> m = 3" unfolding l by auto
    then show "\<not> num_assigns g av m" using na by auto
  qed
  have s2: "\<forall>g \<in> set [''--count'']. \<forall>m. 1 \<le> m \<and> m < length av \<and> (g, m) \<noteq> (''-c'', 3) \<longrightarrow>
                \<not> string_assigns g av m"
  proof (intro ballI allI impI)
    fix g m assume "g \<in> set [''--count'']" and "1 \<le> m \<and> m < length av \<and> (g, m) \<noteq> (''-c'', 3)"
    then have "g = ''--count''" and "m = 1 \<or> m = 2 \<or> m = 3" unfolding l by auto
    then show "\<not> string_assigns g av m" using sa by auto
  qed
  have e: "\<forall>g \<in> set (''-c'' # [''--count'']). \<not> has_eq_quote g"
  proof -
    have "\<not> has_eq_quote ''-c''" "\<not> has_eq_quote ''--count''" by code_simp+
    then show ?thesis by simp
  qed
  have v: "atoi (drop (2 + 1) (arg av 3)) = 7" unfolding av_def by code_simp
  have q: "(if quoted (arg av 3) 2
            then takeWhile (\<lambda>c. c \<noteq> CHR 0x22) (drop (2 + 2) (arg av 3))
            else drop (2 + 1) (arg av 3)) = ''7''"
    unfolding av_def by code_simp
  note t = match_priority [where av = av and j = 3 and spec = spec and earlier = "[]"
        and flag = "''-c''" and later = "[''--count'']" and k = 2 and atof = "\<lambda>s. 0 :: int"]
  note c1 = t [THEN conjunct1, THEN mp,
      OF conjI [OF j(1) conjI [OF j(2) conjI [OF f conjI [OF h(1) conjI [OF h(2)
         conjI [OF h(3) conjI [OF n1 n2]]]]]]], THEN conjunct1]
  note c2 = t [THEN conjunct2, THEN conjunct1, THEN mp,
      OF conjI [OF w conjI [OF j(1) conjI [OF j(2) conjI [OF f conjI [OF h(1) conjI [OF h(2)
         conjI [OF h(3) conjI [OF e conjI [OF s1 s2]]]]]]]]]]
  have r1: "args_int spec av = 7"
    using c1 unfolding v .
  have r2: "string_result spec av = Some ''7''"
    using c2 unfolding q .
  have fb: "flags_of bspec = [''-o''] @ ''--opt'' # []" unfolding bspec_def by code_simp
  have b1: "bool_body ''--opt'' bv 1 = Some False" unfolding bv_def by code_simp
  have b0: "\<forall>h \<in> set [''-o'']. \<forall>m. 1 \<le> m \<and> m < length bv \<longrightarrow> bool_body h bv m = None"
  proof (intro ballI allI impI)
    fix h m assume "h \<in> set [''-o'']" and "1 \<le> m \<and> m < length bv"
    then have "h = ''-o''" and "m = 1 \<or> m = 2 \<or> m = 3" unfolding lb by auto
    moreover have "bool_body ''-o'' bv 1 = None" "bool_body ''-o'' bv 2 = None"
      "bool_body ''-o'' bv 3 = None"
      unfolding bv_def by code_simp+
    ultimately show "bool_body h bv m = None" by auto
  qed
  have b2: "\<forall>m. 1 \<le> m \<and> m < (1::nat) \<longrightarrow> bool_body ''--opt'' bv m = None" by simp
  have i: "(1::nat) \<le> 1" "1 < length bv" by (simp_all add: lb)
  note d = match_priority [where av = bv and spec = bspec and i = 1 and earlier = "[''-o'']"
        and g = "''--opt''" and later = "[]" and b = False and atof = "\<lambda>s. 0 :: int",
      THEN conjunct2, THEN conjunct2, THEN conjunct1, THEN mp,
      OF conjI [OF i(1) conjI [OF i(2) conjI [OF fb conjI [OF b0 conjI [OF b2 b1]]]]]]
  from r1 r2 d show ?thesis
    unfolding av_def bv_def spec_def bspec_def by (intro conjI)
qed

theorem match_priority_counterexample:
  "args_int ''-c|--count'' (args_parse [''prog'', ''--count'', ''5'', ''-c=7'']) = 5
   \<and> string_result ''-n|--name'' (args_parse [''prog'', ''--name'', ''x'', ''-n=y'']) = Some ''x''
   \<and> args_bool ''--flag'' (args_parse [''prog'', ''--flag=true'', ''--flag=false'']) = True"
  by code_simp

section \<open>C2: the defaults when no argument is an occurrence\<close>

text \<open>
  C2.  Suppose that no argument from index 1 on is an occurrence of an alias token: none
  is equal to a token, and none both begins with a token and holds an \<open>=\<close>.  Then
  \<open>args_bool\<close> is false, \<open>args_int\<close> is 0, \<open>args_float\<close> is the zero of the doubles,
  and \<open>args_string\<close> returns the null pointer and leaves the store as it was.  The store
  that was never initialised has no argument at all, so the same holds for it.  The
  queries are total functions with no error value, as the C functions have no error
  return.  Index 0, the program name, is not looked at: in the witness it is an alias.
\<close>

theorem default_on_absence:
  fixes atof :: "string \<Rightarrow> 'd::zero"
  assumes "\<forall>flag \<in> set (flags_of spec). \<forall>m. 1 \<le> m \<and> m < length av \<longrightarrow>
             arg av m \<noteq> flag \<and> (strncmp_eq (arg av m) flag \<longrightarrow> strchr (arg av m) (CHR ''='') = None)"
  shows "(args_bool spec av = False \<and> args_int spec av = 0 \<and> args_float atof spec av = 0
          \<and> args_string spec av = (None, av) \<and> string_result spec av = None)
       \<and> (args_bool spec [] = False \<and> args_int spec [] = 0 \<and> args_float atof spec [] = 0
          \<and> args_string spec [] = (None, []) \<and> string_result spec [] = None)"
proof -
  have e: "\<forall>flag \<in> set (flags_of spec). \<forall>m. 1 \<le> m \<and> m < length ([] :: store) \<longrightarrow>
             arg [] m \<noteq> flag \<and> (strncmp_eq (arg [] m) flag \<longrightarrow> strchr (arg [] m) (CHR ''='') = None)"
    by simp
  show ?thesis
    by (simp add: args_bool_def args_int_def args_float_def args_string_def string_result_def
        no_match_defaults [OF assms] no_match_defaults [OF e])
qed

theorem default_on_absence_witness:
  "args_bool ''-v|--verbose'' (args_parse [''--verbose'', ''--verb'', ''x=1'', ''-V'']) = False
   \<and> args_int ''-v|--verbose'' (args_parse [''--verbose'', ''--verb'', ''x=1'', ''-V'']) = 0
   \<and> args_float (\<lambda>s. 1 :: int) ''-v|--verbose'' (args_parse [''--verbose'', ''--verb'', ''x=1'', ''-V'']) = 0
   \<and> string_result ''-v|--verbose'' (args_parse [''--verbose'', ''--verb'', ''x=1'', ''-V'']) = None
   \<and> args_bool ''-v|--verbose'' [] = False"
proof -
  let ?av = "args_parse [''--verbose'', ''--verb'', ''x=1'', ''-V'']"
  have f: "flags_of ''-v|--verbose'' = [''-v'', ''--verbose'']" by code_simp
  have l: "length ?av = 4" by (simp add: args_parse_def)
  have m: "(1 \<le> m \<and> m < 4) = (m = 1 \<or> m = 2 \<or> m = 3)" for m :: nat by auto
  have a: "arg ?av 1 = ''--verb''" "arg ?av 2 = ''x=1''" "arg ?av 3 = ''-V''"
    by code_simp+
  have h: "\<forall>flag \<in> set (flags_of ''-v|--verbose''). \<forall>m. 1 \<le> m \<and> m < length ?av \<longrightarrow>
             arg ?av m \<noteq> flag \<and> (strncmp_eq (arg ?av m) flag \<longrightarrow> strchr (arg ?av m) (CHR ''='') = None)"
    unfolding f l m using a by (auto simp: strncmp_eq_def)
  show ?thesis
    using default_on_absence [OF h, of "\<lambda>s. 1 :: int"] by simp
qed

section \<open>C3: the bare form of the boolean query\<close>

text \<open>
  C3, as amended.  The specification says that, for every argument vector, the query
  returns true or false after the follower of an argument that is exactly an alias token.
  That fails when an occurrence scanned earlier has returned already
  (\<open>args_bool_bare_form_counterexample\<close>: \<open>--flag=false\<close> before a bare \<open>--flag\<close> gives
  false; with the query string \<open>-a|-b\<close>, a final \<open>-a\<close> is scanned before \<open>-b off\<close> and
  gives true).  What holds: at an argument (index \<open>i\<close>, from 1 on) that is exactly an alias
  token, the loop body of \<open>args_bool\<close> returns: \<open>True\<close> when a following argument exists and
  is one of the truthy words, \<open>False\<close> when it is one of the falsy words, and \<open>True\<close> when
  there is no following argument or it is in neither set; the words are compared with
  \<open>strcasecmp\<close>.  The value the body returns is the value of the query when the scan gets
  to this argument, that is when the alias tokens listed before this one return nowhere
  and this token returns at no earlier argument.  The examples of the specification are
  the witness.
\<close>

theorem args_bool_bare_form:
  assumes "1 \<le> i" and "i < length av" and "arg av i = flag"
  shows "\<exists>b. bool_body flag av i = Some b
     \<and> (i + 1 < length av \<and> (\<exists>t \<in> set true_values. strcasecmp_eq (arg av (i + 1)) t) \<longrightarrow> b = True)
     \<and> (i + 1 < length av \<and> (\<exists>t \<in> set false_values. strcasecmp_eq (arg av (i + 1)) t) \<longrightarrow> b = False)
     \<and> (\<not> i + 1 < length av \<or> (\<not> (\<exists>t \<in> set true_values. strcasecmp_eq (arg av (i + 1)) t) \<and>
            \<not> (\<exists>t \<in> set false_values. strcasecmp_eq (arg av (i + 1)) t)) \<longrightarrow> b = True)
     \<and> (flags_of spec = fs1 @ flag # fs2
          \<and> (\<forall>g \<in> set fs1. \<forall>m. 1 \<le> m \<and> m < length av \<longrightarrow> bool_body g av m = None)
          \<and> (\<forall>m. 1 \<le> m \<and> m < i \<longrightarrow> bool_body flag av m = None)
          \<longrightarrow> args_bool spec av = b)"
proof -
  let ?b = "\<not> (i + 1 < length av \<and> map tolower (arg av (i + 1)) \<in> set false_values)"
  have body: "bool_body flag av i = Some ?b"
    using assms(3) by (rule bool_body_exact)
  have q: "flags_of spec = fs1 @ flag # fs2
          \<and> (\<forall>g \<in> set fs1. \<forall>m. 1 \<le> m \<and> m < length av \<longrightarrow> bool_body g av m = None)
          \<and> (\<forall>m. 1 \<le> m \<and> m < i \<longrightarrow> bool_body flag av m = None)
          \<longrightarrow> args_bool spec av = ?b"
    using bool_first_decides [OF _ _ assms(1,2) body] by (simp add: args_bool_def)
  have t: "map tolower (arg av (i + 1)) \<in> set true_values \<Longrightarrow>
           map tolower (arg av (i + 1)) \<notin> set false_values"
    by (rule true_not_false)
  show ?thesis
    apply (rule exI [of _ ?b])
    using body q t by (simp add: strcasecmp_true_values strcasecmp_false_values)
qed

theorem args_bool_bare_form_witness:
  "args_bool ''--flag'' (args_parse [''prog'', ''--flag'']) = True
   \<and> args_bool ''--flag'' (args_parse [''prog'', ''--flag'', ''off'']) = False
   \<and> args_bool ''--flag'' (args_parse [''prog'', ''--flag'', ''on'']) = True
   \<and> args_bool ''--flag'' (args_parse [''prog'', ''--flag'', ''--other'']) = True"
proof -
  have f: "flags_of ''--flag'' = [] @ ''--flag'' # []" by code_simp
  have a1: "arg (args_parse [''prog'', ''--flag'']) 1 = ''--flag''" by code_simp
  have a2: "arg (args_parse [''prog'', ''--flag'', ''off'']) 1 = ''--flag''" by code_simp
  have a3: "arg (args_parse [''prog'', ''--flag'', ''on'']) 1 = ''--flag''" by code_simp
  have a4: "arg (args_parse [''prog'', ''--flag'', ''--other'']) 1 = ''--flag''" by code_simp
  have n2: "\<exists>t \<in> set false_values. strcasecmp_eq (arg (args_parse [''prog'', ''--flag'', ''off'']) (1 + 1)) t"
    by code_simp
  have n3: "\<exists>t \<in> set true_values. strcasecmp_eq (arg (args_parse [''prog'', ''--flag'', ''on'']) (1 + 1)) t"
    by code_simp
  have n4: "\<not> (\<exists>t \<in> set true_values. strcasecmp_eq (arg (args_parse [''prog'', ''--flag'', ''--other'']) (1 + 1)) t)
     \<and> \<not> (\<exists>t \<in> set false_values. strcasecmp_eq (arg (args_parse [''prog'', ''--flag'', ''--other'']) (1 + 1)) t)"
    by code_simp
  have "args_bool ''--flag'' (args_parse [''prog'', ''--flag'']) = True"
    using args_bool_bare_form [of 1 "args_parse [''prog'', ''--flag'']" "''--flag''" "''--flag''" "[]" "[]", OF _ _ a1] f
    by (auto simp: args_parse_def)
  moreover have "args_bool ''--flag'' (args_parse [''prog'', ''--flag'', ''off'']) = False"
    using args_bool_bare_form [of 1 "args_parse [''prog'', ''--flag'', ''off'']" "''--flag''" "''--flag''" "[]" "[]", OF _ _ a2] f n2
    by (auto simp: args_parse_def)
  moreover have "args_bool ''--flag'' (args_parse [''prog'', ''--flag'', ''on'']) = True"
    using args_bool_bare_form [of 1 "args_parse [''prog'', ''--flag'', ''on'']" "''--flag''" "''--flag''" "[]" "[]", OF _ _ a3] f n3
    by (auto simp: args_parse_def)
  moreover have "args_bool ''--flag'' (args_parse [''prog'', ''--flag'', ''--other'']) = True"
    using args_bool_bare_form [of 1 "args_parse [''prog'', ''--flag'', ''--other'']" "''--flag''" "''--flag''" "[]" "[]", OF _ _ a4] f n4
    by (auto simp: args_parse_def)
  ultimately show ?thesis by simp
qed

theorem args_bool_bare_form_counterexample:
  "args_bool ''--flag'' (args_parse [''prog'', ''--flag=false'', ''--flag'']) = False
   \<and> args_bool ''-a|-b'' (args_parse [''prog'', ''-b'', ''off'', ''-a'']) = True"
  by code_simp

section \<open>C4: case sensitivity of the two forms of the boolean query\<close>

text \<open>
  C4.  In the bare form the following argument is compared with \<open>strcasecmp\<close>: at an
  argument that is exactly the alias token the loop body returns true when the follower,
  put in lower case, is a truthy word, false when it is a falsy word, and true when it is
  neither or there is no follower; so what it returns is the same for two followers that
  differ in the case of their letters only.  In the \<open>=\<close> form the suffix is compared with
  \<open>strcmp\<close>: the body returns only when the suffix is, byte for byte, one of the ten
  words.  So a following \<open>TRUE\<close> is in the truthy set for the bare form and the body
  returns true, a following \<open>FALSE\<close> gives false, and the suffixes of \<open>--flag=TRUE\<close> and
  \<open>--flag=FALSE\<close> are in neither set: the body does not return there and the query is
  false on \<open>--flag=TRUE\<close>, where it is true on \<open>--flag=true\<close>.
\<close>

theorem args_bool_case_asymmetry:
  "(arg av i = flag \<longrightarrow>
      bool_body flag av i =
        Some (if i + 1 < length av \<and> map tolower (arg av (i + 1)) \<in> set true_values then True
              else if i + 1 < length av \<and> map tolower (arg av (i + 1)) \<in> set false_values
              then False else True))
   \<and> (arg av i = flag \<and> arg av' i = flag \<and> length av' = length av
      \<and> map tolower (arg av' (i + 1)) = map tolower (arg av (i + 1))
      \<longrightarrow> bool_body flag av' i = bool_body flag av i)
   \<and> (arg av i \<noteq> flag \<and> strncmp_eq (arg av i) flag \<and> strchr (arg av i) (CHR ''='') = Some k
      \<longrightarrow> bool_body flag av i =
            (if drop (k + 1) (arg av i) \<in> set true_values then Some True
             else if drop (k + 1) (arg av i) \<in> set false_values then Some False
             else None))
   \<and> (\<exists>t \<in> set true_values. strcasecmp_eq ''TRUE'' t)
   \<and> ''TRUE'' \<notin> set true_values \<and> ''TRUE'' \<notin> set false_values
   \<and> bool_body ''--flag'' (args_parse [''prog'', ''--flag'', ''TRUE'']) 1 = Some True
   \<and> bool_body ''--flag'' (args_parse [''prog'', ''--flag'', ''FALSE'']) 1 = Some False
   \<and> bool_body ''--flag'' (args_parse [''prog'', ''--flag=TRUE'']) 1 = None
   \<and> bool_body ''--flag'' (args_parse [''prog'', ''--flag=FALSE'']) 1 = None
   \<and> args_bool ''--flag'' (args_parse [''prog'', ''--flag'', ''TRUE'']) = True
   \<and> args_bool ''--flag'' (args_parse [''prog'', ''--flag'', ''FALSE'']) = False
   \<and> args_bool ''--flag'' (args_parse [''prog'', ''--flag'', ''maybe'']) = True
   \<and> args_bool ''--flag'' (args_parse [''prog'', ''--flag'']) = True
   \<and> args_bool ''--flag'' (args_parse [''prog'', ''--flag=true'']) = True
   \<and> args_bool ''--flag'' (args_parse [''prog'', ''--flag=TRUE'']) = False"
proof -
  have 0: "arg av i = flag \<longrightarrow>
      bool_body flag av i =
        Some (if i + 1 < length av \<and> map tolower (arg av (i + 1)) \<in> set true_values then True
              else if i + 1 < length av \<and> map tolower (arg av (i + 1)) \<in> set false_values
              then False else True)"
    using bool_body_exact_cases [of av i flag] by (rule_tac impI)
  have 1: "arg av i = flag \<and> arg av' i = flag \<and> length av' = length av
      \<and> map tolower (arg av' (i + 1)) = map tolower (arg av (i + 1))
      \<longrightarrow> bool_body flag av' i = bool_body flag av i"
    by (simp add: bool_body_exact)
  have 2: "arg av i \<noteq> flag \<and> strncmp_eq (arg av i) flag \<and> strchr (arg av i) (CHR ''='') = Some k
      \<longrightarrow> bool_body flag av i =
            (if drop (k + 1) (arg av i) \<in> set true_values then Some True
             else if drop (k + 1) (arg av i) \<in> set false_values then Some False
             else None)"
    using bool_body_eq_form [of av i flag k] by (rule_tac impI) simp
  have 3: "\<exists>t \<in> set true_values. strcasecmp_eq ''TRUE'' t" by code_simp
  have 4: "''TRUE'' \<notin> set true_values" by code_simp
  have 5: "''TRUE'' \<notin> set false_values" by code_simp
  have 6: "bool_body ''--flag'' (args_parse [''prog'', ''--flag'', ''TRUE'']) 1 = Some True"
    by code_simp
  have 7: "bool_body ''--flag'' (args_parse [''prog'', ''--flag'', ''FALSE'']) 1 = Some False"
    by code_simp
  have 8: "bool_body ''--flag'' (args_parse [''prog'', ''--flag=TRUE'']) 1 = None"
    by code_simp
  have 9: "bool_body ''--flag'' (args_parse [''prog'', ''--flag=FALSE'']) 1 = None"
    by code_simp
  have 10: "args_bool ''--flag'' (args_parse [''prog'', ''--flag'', ''TRUE'']) = True" by code_simp
  have 11: "args_bool ''--flag'' (args_parse [''prog'', ''--flag'', ''FALSE'']) = False" by code_simp
  have 12: "args_bool ''--flag'' (args_parse [''prog'', ''--flag'', ''maybe'']) = True" by code_simp
  have 13: "args_bool ''--flag'' (args_parse [''prog'', ''--flag'']) = True" by code_simp
  have 14: "args_bool ''--flag'' (args_parse [''prog'', ''--flag=true'']) = True" by code_simp
  have 15: "args_bool ''--flag'' (args_parse [''prog'', ''--flag=TRUE'']) = False" by code_simp
  show ?thesis
    by (intro conjI) (rule 0 1 2 3 4 5 6 7 8 9 10 11 12 13 14 15)+
qed

theorem args_bool_case_asymmetry_witness:
  "bool_body ''--flag'' (args_parse [''prog'', ''--flag'', ''Off'']) 1 = Some False
   \<and> bool_body ''--flag'' (args_parse [''prog'', ''--flag'', ''oN'']) 1 = Some True
   \<and> bool_body ''--flag'' (args_parse [''prog'', ''--flag'', ''Off'']) 1
     = bool_body ''--flag'' (args_parse [''prog'', ''--flag'', ''oFF'']) 1
   \<and> bool_body ''--flag'' (args_parse [''prog'', ''--flag=Off'']) 1 = None
   \<and> bool_body ''--flag'' (args_parse [''prog'', ''--flag=off'']) 1 = Some False"
proof -
  define a where "a = args_parse [''prog'', ''--flag'', ''oFF'']"
  define b where "b = args_parse [''prog'', ''--flag'', ''Off'']"
  define c where "c = args_parse [''prog'', ''--flag=Off'']"
  define d where "d = args_parse [''prog'', ''--flag=off'']"
  define e where "e = args_parse [''prog'', ''--flag'', ''oN'']"
  have hb: "arg b 1 = ''--flag''" unfolding b_def by code_simp
  have vb: "(if 1 + 1 < length b \<and> map tolower (arg b (1 + 1)) \<in> set true_values then True
              else if 1 + 1 < length b \<and> map tolower (arg b (1 + 1)) \<in> set false_values
              then False else True) = False"
    unfolding b_def by code_simp
  have he: "arg e 1 = ''--flag''" unfolding e_def by code_simp
  have ve: "(if 1 + 1 < length e \<and> map tolower (arg e (1 + 1)) \<in> set true_values then True
              else if 1 + 1 < length e \<and> map tolower (arg e (1 + 1)) \<in> set false_values
              then False else True) = True"
    unfolding e_def by code_simp
  have h1: "arg a 1 = ''--flag'' \<and> arg b 1 = ''--flag'' \<and> length b = length a
      \<and> map tolower (arg b (1 + 1)) = map tolower (arg a (1 + 1))"
    unfolding a_def b_def by code_simp
  have h2: "arg c 1 \<noteq> ''--flag'' \<and> strncmp_eq (arg c 1) ''--flag''
      \<and> strchr (arg c 1) (CHR ''='') = Some 6"
    unfolding c_def by code_simp
  have v2: "(if drop (6 + 1) (arg c 1) \<in> set true_values then Some True
             else if drop (6 + 1) (arg c 1) \<in> set false_values then Some False
             else None) = None"
    unfolding c_def by code_simp
  have h3: "arg d 1 \<noteq> ''--flag'' \<and> strncmp_eq (arg d 1) ''--flag''
      \<and> strchr (arg d 1) (CHR ''='') = Some 6"
    unfolding d_def by code_simp
  have v3: "(if drop (6 + 1) (arg d 1) \<in> set true_values then Some True
             else if drop (6 + 1) (arg d 1) \<in> set false_values then Some False
             else None) = Some False"
    unfolding d_def by code_simp
  have r0: "bool_body ''--flag'' b 1 = Some False"
    using args_bool_case_asymmetry [where av = b and i = 1 and flag = "''--flag''",
        THEN conjunct1, THEN mp, OF hb]
    unfolding vb .
  have r0': "bool_body ''--flag'' e 1 = Some True"
    using args_bool_case_asymmetry [where av = e and i = 1 and flag = "''--flag''",
        THEN conjunct1, THEN mp, OF he]
    unfolding ve .
  have r1: "bool_body ''--flag'' b 1 = bool_body ''--flag'' a 1"
    using args_bool_case_asymmetry [where av = a and av' = b and i = 1 and flag = "''--flag''",
        THEN conjunct2, THEN conjunct1, THEN mp, OF h1] .
  have r2: "bool_body ''--flag'' c 1 = None"
    using args_bool_case_asymmetry [where av = c and i = 1 and flag = "''--flag''" and k = 6,
        THEN conjunct2, THEN conjunct2, THEN conjunct1, THEN mp, OF h2]
    unfolding v2 .
  have r3: "bool_body ''--flag'' d 1 = Some False"
    using args_bool_case_asymmetry [where av = d and i = 1 and flag = "''--flag''" and k = 6,
        THEN conjunct2, THEN conjunct2, THEN conjunct1, THEN mp, OF h3]
    unfolding v3 .
  from r0 r0' r1 r2 r3 show ?thesis
    unfolding a_def b_def c_def d_def e_def by (intro conjI)
qed

section \<open>C5: what the numeric queries capture\<close>

text \<open>
  C5.  \<open>args_int\<close> and \<open>args_float\<close> share their loop body, up to the conversion.  At
  an argument that is exactly the alias token, the following argument is converted only
  when it exists and its first byte is a decimal digit; otherwise \<open>result\<close> keeps the
  value it had, in particular when the following argument starts with \<open>-\<close>.  At an
  argument that has the token as a proper prefix and holds an \<open>=\<close>, what follows the
  first \<open>=\<close> is converted, whatever it is.  When the argument is the only occurrence of
  the aliases, the query is what the body gives from the default.  The examples of the
  specification are the witness.
\<close>

theorem numeric_capture:
  fixes conv :: "string \<Rightarrow> 'a" and atof :: "string \<Rightarrow> 'd::zero"
  shows "(arg av i = flag \<longrightarrow>
            num_body conv flag av i r =
              (if i + 1 < length av \<and> isdigit (first_byte (arg av (i + 1)))
               then conv (arg av (i + 1)) else r))
     \<and> (arg av i = flag \<and> first_byte (arg av (i + 1)) = CHR ''-'' \<longrightarrow>
            num_body conv flag av i r = r)
     \<and> (arg av i \<noteq> flag \<and> strncmp_eq (arg av i) flag \<and> strchr (arg av i) (CHR ''='') = Some k \<longrightarrow>
            num_body conv flag av i r = conv (drop (k + 1) (arg av i)))
     \<and> (1 \<le> i \<and> i < length av \<and> flag \<in> set (flags_of spec)
          \<and> (\<forall>g \<in> set (flags_of spec). \<forall>m. 1 \<le> m \<and> m < length av \<and> m \<noteq> i \<longrightarrow>
                \<not> strncmp_eq (arg av m) g)
          \<and> (\<forall>g \<in> set (flags_of spec). g \<noteq> flag \<longrightarrow> \<not> strncmp_eq (arg av i) g) \<longrightarrow>
            args_int spec av = num_body atoi flag av i 0
          \<and> args_float atof spec av = num_body atof flag av i 0)"
proof -
  have d: "\<not> isdigit (CHR ''-'')" by (simp add: isdigit_def)
  have 1: "arg av i = flag \<longrightarrow>
            num_body conv flag av i r =
              (if i + 1 < length av \<and> isdigit (first_byte (arg av (i + 1)))
               then conv (arg av (i + 1)) else r)"
    by (simp add: num_body_exact)
  have 2: "arg av i = flag \<and> first_byte (arg av (i + 1)) = CHR ''-'' \<longrightarrow>
            num_body conv flag av i r = r"
    using d by (simp add: num_body_exact)
  have 3: "arg av i \<noteq> flag \<and> strncmp_eq (arg av i) flag \<and> strchr (arg av i) (CHR ''='') = Some k \<longrightarrow>
            num_body conv flag av i r = conv (drop (k + 1) (arg av i))"
    by (simp add: num_body_eq_form)
  have 4: "1 \<le> i \<and> i < length av \<and> flag \<in> set (flags_of spec)
          \<and> (\<forall>g \<in> set (flags_of spec). \<forall>m. 1 \<le> m \<and> m < length av \<and> m \<noteq> i \<longrightarrow>
                \<not> strncmp_eq (arg av m) g)
          \<and> (\<forall>g \<in> set (flags_of spec). g \<noteq> flag \<longrightarrow> \<not> strncmp_eq (arg av i) g) \<longrightarrow>
            args_int spec av = num_body atoi flag av i 0
          \<and> args_float atof spec av = num_body atof flag av i 0"
    using num_fold_only [of i av "flags_of spec" flag atoi 0]
      num_fold_only [of i av "flags_of spec" flag atof 0]
    by (simp add: args_int_def args_float_def)
  from 1 2 3 4 show ?thesis by blast
qed

theorem numeric_capture_witness:
  "args_int ''-c|--count'' (args_parse [''prog'', ''--count=42'']) = 42
   \<and> args_int ''--count'' (args_parse [''prog'', ''--count'', ''-5'']) = 0
   \<and> args_int ''-c|--count'' (args_parse [''prog'', ''--count'', ''42'']) = 42"
proof -
  let ?a = "args_parse [''prog'', ''--count=42'']"
  let ?b = "args_parse [''prog'', ''--count'', ''-5'']"
  let ?c = "args_parse [''prog'', ''--count'', ''42'']"
  have f2: "flags_of ''-c|--count'' = [''-c'', ''--count'']" by code_simp
  have f1: "flags_of ''--count'' = [''--count'']" by code_simp
  have la: "length ?a = 2" and lb: "length ?b = 3" and lc: "length ?c = 3"
    by (simp_all add: args_parse_def)
  have m3: "(1 \<le> m \<and> m < 3 \<and> m \<noteq> 1) = (m = 2)" for m :: nat by auto
  have a: "arg ?a 1 \<noteq> ''--count'' \<and> strncmp_eq (arg ?a 1) ''--count''
      \<and> strchr (arg ?a 1) (CHR ''='') = Some 7" "\<not> strncmp_eq (arg ?a 1) ''-c''"
    "atoi (drop (7 + 1) (arg ?a 1)) = 42"
    by code_simp+
  have b: "arg ?b 1 = ''--count'' \<and> first_byte (arg ?b (1 + 1)) = CHR ''-''"
    "\<not> strncmp_eq (arg ?b 2) ''--count''"
    by code_simp+
  have c: "arg ?c 1 = ''--count''" "\<not> strncmp_eq (arg ?c 2) ''--count''"
    "\<not> strncmp_eq (arg ?c 2) ''-c''" "\<not> strncmp_eq (arg ?c 1) ''-c''"
    "isdigit (first_byte (arg ?c (1 + 1)))" "atoi (arg ?c (1 + 1)) = 42"
    by code_simp+
  have "args_int ''-c|--count'' ?a = 42"
    using numeric_capture [of ?a 1 "''--count''" atoi 0 7 "''-c|--count''" "\<lambda>s. 0 :: int"] a
    unfolding f2 la by auto
  moreover have "args_int ''--count'' ?b = 0"
    using numeric_capture [of ?b 1 "''--count''" atoi 0 0 "''--count''" "\<lambda>s. 0 :: int"] b
    unfolding f1 lb m3 by auto
  moreover have "args_int ''-c|--count'' ?c = 42"
    using numeric_capture [of ?c 1 "''--count''" atoi 0 0 "''-c|--count''" "\<lambda>s. 0 :: int"] c
    unfolding f2 lc m3 by auto
  ultimately show ?thesis by simp
qed

section \<open>C6: what the string query captures at an exact match\<close>

text \<open>
  C6, as amended.  The specification says that, for every argument vector, the token
  that follows an argument equal to an alias token is the result, verbatim.  That fails
  when a step scanned later assigns, and when the follower has had its closing quote
  erased by a step scanned earlier (\<open>args_string_exact_capture_counterexample\<close>).  What
  holds: at an argument that is exactly the alias token and has a following argument, the
  loop body of \<open>args_string\<close> sets \<open>result\<close> to the start of the following argument, whatever
  that argument looks like and whatever \<open>result\<close> was, and writes nothing: the string read
  through the pointer is the whole following argument as it stands in the store.  When
  no step scanned after this one assigns (the same token at no later index, the tokens
  listed after it at no index; these tokens holding no \<open>=\<close> followed by a quote), the query
  returns this pointer; the buffer it points to is the follower as it was or with its
  closing quote erased, and the string returned is the follower as it was passed when
  the follower has no quote to erase.  The witness is the example of the specification,
  and a follower that looks like a flag after an earlier \<open>=\<close> form occurrence.
\<close>

theorem args_string_exact_capture:
  assumes "arg av i = flag" and "i + 1 < length av"
  shows "string_body flag i (r, av) = (Some (i + 1, 0), av)
     \<and> string_at av (i + 1, 0) = arg av (i + 1)
     \<and> (wf_store av \<and> 1 \<le> i \<and> flags_of spec = earlier @ flag # later
          \<and> (\<forall>g \<in> set (flag # later). \<not> has_eq_quote g)
          \<and> (\<forall>m. i < m \<and> m < length av \<longrightarrow> \<not> string_assigns flag av m)
          \<and> (\<forall>g \<in> set later. \<forall>m. 1 \<le> m \<and> m < length av \<and> (g, m) \<noteq> (flag, i) \<longrightarrow>
                \<not> string_assigns g av m)
        \<longrightarrow> fst (args_string spec av) = Some (i + 1, 0)
          \<and> string_result spec av = Some (arg (snd (args_string spec av)) (i + 1))
          \<and> (snd (args_string spec av) ! (i + 1) = av ! (i + 1)
              \<or> snd (args_string spec av) ! (i + 1) = unquote (av ! (i + 1)))
          \<and> (unquote (av ! (i + 1)) = av ! (i + 1) \<longrightarrow>
                string_result spec av = Some (arg av (i + 1))))"
proof -
  have body: "string_body flag i (r, av) = (Some (i + 1, 0), av)"
    using assms by (rule string_body_exact)
  have at: "string_at av (i + 1, 0) = arg av (i + 1)"
    by (rule string_at_start)
  have q: "wf_store av \<and> 1 \<le> i \<and> flags_of spec = earlier @ flag # later
          \<and> (\<forall>g \<in> set (flag # later). \<not> has_eq_quote g)
          \<and> (\<forall>m. i < m \<and> m < length av \<longrightarrow> \<not> string_assigns flag av m)
          \<and> (\<forall>g \<in> set later. \<forall>m. 1 \<le> m \<and> m < length av \<and> (g, m) \<noteq> (flag, i) \<longrightarrow>
                \<not> string_assigns g av m)
        \<longrightarrow> fst (args_string spec av) = Some (i + 1, 0)
          \<and> string_result spec av = Some (arg (snd (args_string spec av)) (i + 1))
          \<and> (snd (args_string spec av) ! (i + 1) = av ! (i + 1)
              \<or> snd (args_string spec av) ! (i + 1) = unquote (av ! (i + 1)))
          \<and> (unquote (av ! (i + 1)) = av ! (i + 1) \<longrightarrow>
                string_result spec av = Some (arg av (i + 1)))"
  proof (intro impI, elim conjE)
    assume h: "wf_store av" "1 \<le> i" "flags_of spec = earlier @ flag # later"
      "\<forall>g \<in> set (flag # later). \<not> has_eq_quote g"
      "\<forall>m. i < m \<and> m < length av \<longrightarrow> \<not> string_assigns flag av m"
      "\<forall>g \<in> set later. \<forall>m. 1 \<le> m \<and> m < length av \<and> (g, m) \<noteq> (flag, i) \<longrightarrow>
                \<not> string_assigns g av m"
    note l = string_result_exact_last [OF h(1,2) assms(2) h(3,4) assms(1) h(5,6)]
    have v: "unquote (av ! (i + 1)) = av ! (i + 1) \<longrightarrow>
                string_result spec av = Some (arg av (i + 1))"
    proof
      assume "unquote (av ! (i + 1)) = av ! (i + 1)"
      with l(3) have "snd (args_string spec av) ! (i + 1) = av ! (i + 1)" by auto
      then have "arg (snd (args_string spec av)) (i + 1) = arg av (i + 1)"
        by (simp add: arg_def)
      with l(2) show "string_result spec av = Some (arg av (i + 1))" by simp
    qed
    show "fst (args_string spec av) = Some (i + 1, 0)
          \<and> string_result spec av = Some (arg (snd (args_string spec av)) (i + 1))
          \<and> (snd (args_string spec av) ! (i + 1) = av ! (i + 1)
              \<or> snd (args_string spec av) ! (i + 1) = unquote (av ! (i + 1)))
          \<and> (unquote (av ! (i + 1)) = av ! (i + 1) \<longrightarrow>
                string_result spec av = Some (arg av (i + 1)))"
      by (rule conjI [OF l(1) conjI [OF l(2) conjI [OF l(3) v]]])
  qed
  show ?thesis
    by (rule conjI [OF body conjI [OF at q]])
qed

theorem args_string_exact_capture_witness:
  "string_result ''--name'' (args_parse [''prog'', ''--name'', ''John'', ''Smith'']) = Some ''John''
   \<and> string_result ''--name|-n'' (args_parse [''prog'', ''--name=a'', ''--name'', ''--verbose''])
       = Some ''--verbose''"
proof -
  define a where "a = args_parse [''prog'', ''--name'', ''John'', ''Smith'']"
  define b where "b = args_parse [''prog'', ''--name=a'', ''--name'', ''--verbose'']"
  define s1 where "s1 = ''--name''"
  define s2 where "s2 = ''--name|-n''"
  have wa: "wf_store a" and wb: "wf_store b" unfolding a_def b_def by code_simp+
  have f1: "flags_of s1 = [] @ ''--name'' # []" unfolding s1_def by code_simp
  have f2: "flags_of s2 = [] @ ''--name'' # [''-n'']" unfolding s2_def by code_simp
  have la: "length a = 4" and lb: "length b = 4" by (simp_all add: a_def b_def args_parse_def)
  have a1: "arg a 1 = ''--name''" and b2: "arg b 2 = ''--name''"
    unfolding a_def b_def by code_simp+
  have ia: "1 + 1 < length a" and ib: "2 + 1 < length b" by (simp_all add: la lb)
  have e1: "\<forall>g \<in> set (''--name'' # []). \<not> has_eq_quote g"
  proof -
    have "\<not> has_eq_quote ''--name''" by code_simp
    then show ?thesis by simp
  qed
  have e2: "\<forall>g \<in> set (''--name'' # [''-n'']). \<not> has_eq_quote g"
  proof -
    have "\<not> has_eq_quote ''--name''" "\<not> has_eq_quote ''-n''" by code_simp+
    then show ?thesis by simp
  qed
  have na: "\<not> string_assigns ''--name'' a 2" "\<not> string_assigns ''--name'' a 3"
    unfolding a_def by code_simp+
  have nb: "\<not> string_assigns ''--name'' b 3" "\<not> string_assigns ''-n'' b 1"
    "\<not> string_assigns ''-n'' b 2" "\<not> string_assigns ''-n'' b 3"
    unfolding b_def by code_simp+
  have oa: "\<forall>m. 1 < m \<and> m < length a \<longrightarrow> \<not> string_assigns ''--name'' a m"
  proof (intro allI impI)
    fix m assume "1 < m \<and> m < length a"
    then have "m = 2 \<or> m = 3" unfolding la by auto
    then show "\<not> string_assigns ''--name'' a m" using na by auto
  qed
  have pa: "\<forall>g \<in> set []. \<forall>m. 1 \<le> m \<and> m < length a \<and> (g, m) \<noteq> (''--name'', 1) \<longrightarrow>
                \<not> string_assigns g a m"
    by simp
  have ob: "\<forall>m. 2 < m \<and> m < length b \<longrightarrow> \<not> string_assigns ''--name'' b m"
  proof (intro allI impI)
    fix m assume "2 < m \<and> m < length b"
    then have "m = 3" unfolding lb by auto
    then show "\<not> string_assigns ''--name'' b m" using nb by auto
  qed
  have pb: "\<forall>g \<in> set [''-n'']. \<forall>m. 1 \<le> m \<and> m < length b \<and> (g, m) \<noteq> (''--name'', 2) \<longrightarrow>
                \<not> string_assigns g b m"
  proof (intro ballI allI impI)
    fix g m assume "g \<in> set [''-n'']" and "1 \<le> m \<and> m < length b \<and> (g, m) \<noteq> (''--name'', 2)"
    then have "g = ''-n''" and "m = 1 \<or> m = 2 \<or> m = 3" unfolding lb by auto
    then show "\<not> string_assigns g b m" using nb by auto
  qed
  have le1: "(1::nat) \<le> 1" and le2: "(1::nat) \<le> 2" by simp_all
  have ua: "unquote (a ! (1 + 1)) = a ! (1 + 1)" unfolding a_def by code_simp
  have ub: "unquote (b ! (2 + 1)) = b ! (2 + 1)" unfolding b_def by code_simp
  have a2: "arg a (1 + 1) = ''John''" unfolding a_def by code_simp
  have b3: "arg b (2 + 1) = ''--verbose''" unfolding b_def by code_simp
  note ca = args_string_exact_capture [OF a1 ia, where r = None and spec = s1
        and earlier = "[]" and later = "[]",
      THEN conjunct2, THEN conjunct2, THEN mp,
      OF conjI [OF wa conjI [OF le1 conjI [OF f1 conjI [OF e1 conjI [OF oa pa]]]]],
      THEN conjunct2, THEN conjunct2, THEN conjunct2, THEN mp, OF ua]
  note cb = args_string_exact_capture [OF b2 ib, where r = None and spec = s2
        and earlier = "[]" and later = "[''-n'']",
      THEN conjunct2, THEN conjunct2, THEN mp,
      OF conjI [OF wb conjI [OF le2 conjI [OF f2 conjI [OF e2 conjI [OF ob pb]]]]],
      THEN conjunct2, THEN conjunct2, THEN conjunct2, THEN mp, OF ub]
  have r1: "string_result s1 a = Some ''John''"
    using ca unfolding a2 .
  have r2: "string_result s2 b = Some ''--verbose''"
    using cb unfolding b3 .
  from r1 r2 show ?thesis
    unfolding a_def b_def s1_def s2_def by (rule conjI)
qed

theorem args_string_exact_capture_counterexample:
  "string_result ''--name'' (args_parse [''prog'', ''--name'', ''--name=x'']) = Some ''x''
   \<and> string_result ''--name|-n''
        (args_parse [''prog'', ''-n'', ''--name='' @ [CHR 0x22] @ ''x'' @ [CHR 0x22]])
       = Some (''--name='' @ [CHR 0x22] @ ''x'')"
  by code_simp

section \<open>C7: the quoted \<open>=\<close> form of the string query\<close>

text \<open>
  C7, as amended.  The specification says that, for every argument vector, the run
  inside the quotes is the result.  That fails when a step scanned later assigns
  (\<open>args_string_quoted_capture_counterexample\<close>).  What holds: take an argument that begins
  with the alias token and holds an \<open>=\<close>, not taken by the exact branch, with a double
  quote right after its first \<open>=\<close>.  The loop body of \<open>args_string\<close> sets \<open>result\<close> one past
  the opening quote and writes a terminator at the next quote, or at the end of the
  string when there is none; no other byte of the store changes.  After that the string
  read through \<open>result\<close> is the run of characters from the opening quote to the next quote
  or the end (spaces included), and the argument itself ends before the quote erased.
  For the query: when the token holds no \<open>=\<close> followed by a quote, the store the call
  leaves has this terminator in the argument, whatever else is in the vector; and when
  no step scanned after this one assigns (the same token at no later index, the tokens
  listed after it at no index; these tokens holding no \<open>=\<close> followed by a quote), the
  query returns the run.  The witness is the example of the specification, also with a
  second alias in the query string.
\<close>

theorem args_string_quoted_capture:
  assumes "wf_store av" and "i < length av"
    and "\<not> (arg av i = flag \<and> i + 1 < length av)" and "strncmp_eq (arg av i) flag"
    and "strchr (arg av i) (CHR ''='') = Some k" and "quoted (arg av i) k"
  shows "string_body flag i (r, av)
           = (Some (i, k + 2), av[i := (av ! i)[close_off (arg av i) k := NUL]])
     \<and> string_at (snd (string_body flag i (r, av))) (i, k + 2)
           = takeWhile (\<lambda>c. c \<noteq> CHR 0x22) (drop (k + 2) (arg av i))
     \<and> arg (snd (string_body flag i (r, av))) i = take (close_off (arg av i) k) (arg av i)
     \<and> (1 \<le> i \<and> flag \<in> set (flags_of spec) \<and> \<not> has_eq_quote flag \<longrightarrow>
          snd (args_string spec av) ! i = (av ! i)[close_off (arg av i) k := NUL]
          \<and> string_at (snd (args_string spec av)) (i, k + 2)
              = takeWhile (\<lambda>c. c \<noteq> CHR 0x22) (drop (k + 2) (arg av i)))
     \<and> (1 \<le> i \<and> flags_of spec = earlier @ flag # later
          \<and> (\<forall>g \<in> set (flag # later). \<not> has_eq_quote g)
          \<and> (\<forall>m. i < m \<and> m < length av \<longrightarrow> \<not> string_assigns flag av m)
          \<and> (\<forall>g \<in> set later. \<forall>m. 1 \<le> m \<and> m < length av \<and> (g, m) \<noteq> (flag, i) \<longrightarrow>
                \<not> string_assigns g av m)
        \<longrightarrow> string_result spec av
              = Some (takeWhile (\<lambda>c. c \<noteq> CHR 0x22) (drop (k + 2) (arg av i))))"
proof -
  let ?b = "av ! i"
  let ?run = "takeWhile (\<lambda>c. c \<noteq> CHR 0x22) (drop (k + 2) (arg av i))"
  have wfi: "wf_buf ?b" using assms(1,2) by (simp add: wf_store_nth)
  have k: "strchr (cstr ?b) (CHR ''='') = Some k" and q: "quoted (cstr ?b) k"
    using assms(5,6) by (simp_all add: arg_def)
  have u: "unquote ?b = ?b[close_off (arg av i) k := NUL]"
    using unquote_quoted [OF k q] by (simp add: arg_def)
  have body: "string_body flag i (r', av) = (Some (i, k + 2), av[i := unquote ?b])" for r'
    using assms(3,4,5,6) by (simp add: string_body_unfold)
  have 1: "string_body flag i (r, av)
           = (Some (i, k + 2), av[i := ?b[close_off (arg av i) k := NUL]])"
    using body u by simp
  have n: "av[i := unquote ?b] ! i = unquote ?b" using assms(2) by simp
  have 2: "string_at (snd (string_body flag i (r, av))) (i, k + 2) = ?run"
    using string_at_unquote [OF wfi k q n] by (simp add: body arg_def)
  have 3: "arg (snd (string_body flag i (r, av))) i = take (close_off (arg av i) k) (arg av i)"
    using cstr_unquote [OF wfi k q] n by (simp add: body arg_def)
  have m: "mutates flag av i"
    using assms(3,4,5,6) by (simp add: mutates_def)
  have 4: "1 \<le> i \<and> flag \<in> set (flags_of spec) \<and> \<not> has_eq_quote flag \<longrightarrow>
          snd (args_string spec av) ! i = ?b[close_off (arg av i) k := NUL]
          \<and> string_at (snd (args_string spec av)) (i, k + 2) = ?run"
  proof (intro impI, elim conjE)
    assume t: "1 \<le> i" "flag \<in> set (flags_of spec)" "\<not> has_eq_quote flag"
    have e: "snd (args_string spec av) ! i = unquote ?b"
      using assms(1) t(1) assms(2) t(2,3) m by (rule args_string_erases)
    then show "snd (args_string spec av) ! i = ?b[close_off (arg av i) k := NUL]
          \<and> string_at (snd (args_string spec av)) (i, k + 2) = ?run"
      using string_at_unquote [OF wfi k q e] u by (simp add: arg_def)
  qed
  have 5: "1 \<le> i \<and> flags_of spec = earlier @ flag # later
          \<and> (\<forall>g \<in> set (flag # later). \<not> has_eq_quote g)
          \<and> (\<forall>m. i < m \<and> m < length av \<longrightarrow> \<not> string_assigns flag av m)
          \<and> (\<forall>g \<in> set later. \<forall>m. 1 \<le> m \<and> m < length av \<and> (g, m) \<noteq> (flag, i) \<longrightarrow>
                \<not> string_assigns g av m)
        \<longrightarrow> string_result spec av = Some ?run"
  proof (intro impI, elim conjE)
    assume t: "1 \<le> i" "flags_of spec = earlier @ flag # later"
      "\<forall>g \<in> set (flag # later). \<not> has_eq_quote g"
      "\<forall>m. i < m \<and> m < length av \<longrightarrow> \<not> string_assigns flag av m"
      "\<forall>g \<in> set later. \<forall>m. 1 \<le> m \<and> m < length av \<and> (g, m) \<noteq> (flag, i) \<longrightarrow>
                \<not> string_assigns g av m"
    have "string_result spec av =
           Some (if quoted (arg av i) k then ?run else drop (k + 1) (arg av i))"
      using assms(1) t(1) assms(2) t(2,3) assms(3,4,5) t(4,5)
      by (rule string_result_eq_form_last)
    then show "string_result spec av = Some ?run"
      using assms(6) by simp
  qed
  show ?thesis
    by (rule conjI [OF 1 conjI [OF 2 conjI [OF 3 conjI [OF 4 5]]]])
qed

theorem args_string_quoted_capture_witness:
  "string_result ''--name''
     (args_parse [''prog'', ''--name='' @ [CHR 0x22] @ ''John Smith'' @ [CHR 0x22]])
     = Some ''John Smith''
   \<and> string_result ''--name|-n''
     (args_parse [''prog'', ''--name='' @ [CHR 0x22] @ ''John Smith'' @ [CHR 0x22]])
     = Some ''John Smith''
   \<and> snd (args_string ''--name''
        (args_parse [''prog'', ''--name='' @ [CHR 0x22] @ ''John Smith'' @ [CHR 0x22]])) ! 1
     = ''--name='' @ [CHR 0x22] @ ''John Smith'' @ [NUL, NUL]"
proof -
  define av where "av = args_parse [''prog'', ''--name='' @ [CHR 0x22] @ ''John Smith'' @ [CHR 0x22]]"
  define spec where "spec = ''--name''"
  define spec2 where "spec2 = ''--name|-n''"
  have w: "wf_store av" unfolding av_def by code_simp
  have l: "length av = 2" by (simp add: av_def args_parse_def)
  have i: "1 < length av" by (simp add: l)
  have h: "\<not> (arg av 1 = ''--name'' \<and> 1 + 1 < length av)" "strncmp_eq (arg av 1) ''--name''"
    "strchr (arg av 1) (CHR ''='') = Some 6" "quoted (arg av 1) 6"
    unfolding av_def by code_simp+
  have f: "flags_of spec = [] @ ''--name'' # []" unfolding spec_def by code_simp
  have f2: "flags_of spec2 = [] @ ''--name'' # [''-n'']" unfolding spec2_def by code_simp
  have e0: "\<not> has_eq_quote ''--name''" "\<not> has_eq_quote ''-n''" by code_simp+
  have e: "\<forall>g \<in> set (''--name'' # []). \<not> has_eq_quote g" using e0 by simp
  have e2: "\<forall>g \<in> set (''--name'' # [''-n'']). \<not> has_eq_quote g" using e0 by simp
  have v: "takeWhile (\<lambda>c. c \<noteq> CHR 0x22) (drop (6 + 2) (arg av 1)) = ''John Smith''"
    unfolding av_def by code_simp
  have b: "(av ! 1)[close_off (arg av 1) 6 := NUL]
           = ''--name='' @ [CHR 0x22] @ ''John Smith'' @ [NUL, NUL]"
    unfolding av_def by code_simp
  have o: "\<forall>m. 1 < m \<and> m < length av \<longrightarrow> \<not> string_assigns ''--name'' av m"
    unfolding l by auto
  have p: "\<forall>g \<in> set []. \<forall>m. 1 \<le> m \<and> m < length av \<and> (g, m) \<noteq> (''--name'', 1) \<longrightarrow>
                \<not> string_assigns g av m"
    by simp
  have n1: "\<not> string_assigns ''-n'' av 1" unfolding av_def by code_simp
  have p2: "\<forall>g \<in> set [''-n'']. \<forall>m. 1 \<le> m \<and> m < length av \<and> (g, m) \<noteq> (''--name'', 1) \<longrightarrow>
                \<not> string_assigns g av m"
  proof (intro ballI allI impI)
    fix g m assume "g \<in> set [''-n'']" and "1 \<le> m \<and> m < length av \<and> (g, m) \<noteq> (''--name'', 1)"
    then have "g = ''-n''" and "m = 1" unfolding l by auto
    then show "\<not> string_assigns g av m" using n1 by simp
  qed
  have m: "''--name'' \<in> set (flags_of spec)" by (simp add: f)
  have le: "(1::nat) \<le> 1" by simp
  note c = args_string_quoted_capture [OF w i h, where r = None and spec = spec
        and earlier = "[]" and later = "[]"]
  note c' = args_string_quoted_capture [OF w i h, where r = None and spec = spec2
        and earlier = "[]" and later = "[''-n'']"]
  note c4 = c [THEN conjunct2, THEN conjunct2, THEN conjunct2, THEN conjunct1, THEN mp,
      OF conjI [OF le conjI [OF m e0(1)]], THEN conjunct1]
  note c5 = c [THEN conjunct2, THEN conjunct2, THEN conjunct2, THEN conjunct2, THEN mp,
      OF conjI [OF le conjI [OF f conjI [OF e conjI [OF o p]]]]]
  note c5' = c' [THEN conjunct2, THEN conjunct2, THEN conjunct2, THEN conjunct2, THEN mp,
      OF conjI [OF le conjI [OF f2 conjI [OF e2 conjI [OF o p2]]]]]
  have r1: "string_result spec av = Some ''John Smith''"
    using c5 unfolding v .
  have r1': "string_result spec2 av = Some ''John Smith''"
    using c5' unfolding v .
  have r2: "snd (args_string spec av) ! 1 = ''--name='' @ [CHR 0x22] @ ''John Smith'' @ [NUL, NUL]"
    using c4 unfolding b .
  from r1 r1' r2 show ?thesis
    unfolding av_def spec_def spec2_def by (intro conjI)
qed

theorem args_string_quoted_capture_counterexample:
  "string_result ''--name''
     (args_parse [''prog'', ''--name='' @ [CHR 0x22] @ ''a b'' @ [CHR 0x22], ''--name'', ''x''])
     = Some ''x''
   \<and> string_result ''--name|-n''
     (args_parse [''prog'', ''-n'', ''--name='' @ [CHR 0x22] @ ''a b'' @ [CHR 0x22]])
     = Some (''--name='' @ [CHR 0x22] @ ''a b'')"
  by code_simp

section \<open>C8: what the queries change in the store\<close>

text \<open>
  C8.  A call of \<open>args_bool\<close>, \<open>args_int\<close> or \<open>args_float\<close> leaves the store as it was.
  A call of \<open>args_string\<close> keeps the number of arguments and the length of every buffer,
  and an argument it leaves different is one from index 1 on that begins with an alias
  token, holds an \<open>=\<close> with a double quote right after the first one, and has a second
  quote after that: the store differs from the old one in that byte only, which was the
  quote and is the terminator now.  The witness has a call that changes nothing, an
  argument left alone and the argument with the quote erased.
\<close>

theorem frame:
  fixes atof :: "string \<Rightarrow> 'd::zero"
  assumes "wf_store av"
  shows "(q \<noteq> Args_string \<longrightarrow> snd (call atof q spec av) = av)
     \<and> length (snd (call atof q spec av)) = length av
     \<and> (\<forall>i < length av.
           snd (call atof q spec av) ! i = av ! i
           \<or> (q = Args_string \<and> 1 \<le> i
               \<and> (\<exists>flag \<in> set (flags_of spec). strncmp_eq (arg av i) flag)
               \<and> (\<exists>k. strchr (arg av i) (CHR ''='') = Some k \<and> quoted (arg av i) k
                     \<and> close_off (arg av i) k < length (arg av i)
                     \<and> av ! i ! close_off (arg av i) k = CHR 0x22
                     \<and> snd (call atof q spec av) ! i = (av ! i)[close_off (arg av i) k := NUL])))"
proof (cases "q = Args_string")
  case False
  then have "snd (call atof q spec av) = av"
    by (cases q) (simp_all add: call_def)
  then show ?thesis using False by simp
next
  case True
  let ?s = "snd (args_string spec av)"
  have s: "snd (call atof q spec av) = ?s"
    using True by (simp add: call_def split: prod.splits)
  have d: "derived av (set (flags_of spec)) ?s"
    using assms by (rule derived_args_string)
  have len: "length ?s = length av" using d by (rule derived_length)
  have each: "?s ! i = av ! i
           \<or> (q = Args_string \<and> 1 \<le> i
               \<and> (\<exists>flag \<in> set (flags_of spec). strncmp_eq (arg av i) flag)
               \<and> (\<exists>k. strchr (arg av i) (CHR ''='') = Some k \<and> quoted (arg av i) k
                     \<and> close_off (arg av i) k < length (arg av i)
                     \<and> av ! i ! close_off (arg av i) k = CHR 0x22
                     \<and> ?s ! i = (av ! i)[close_off (arg av i) k := NUL]))"
    if i: "i < length av" for i
  proof (cases "?s ! i = av ! i")
    case True
    then show ?thesis by simp
  next
    case False
    with d i have t: "1 \<le> i" "\<exists>flag \<in> set (flags_of spec). strncmp_eq (arg av i) flag"
      and u: "?s ! i = unquote (av ! i)"
      by (auto simp: derived_def)
    have "wf_buf (av ! i)" using assms i by (simp add: wf_store_nth)
    moreover have "unquote (av ! i) \<noteq> av ! i" using False u by simp
    ultimately have "\<exists>k. strchr (cstr (av ! i)) (CHR ''='') = Some k \<and> quoted (cstr (av ! i)) k
           \<and> close_off (cstr (av ! i)) k < length (cstr (av ! i))
           \<and> av ! i ! close_off (cstr (av ! i)) k = CHR 0x22
           \<and> unquote (av ! i) = (av ! i)[close_off (cstr (av ! i)) k := NUL]"
      by (rule unquote_changes)
    then have "\<exists>k. strchr (arg av i) (CHR ''='') = Some k \<and> quoted (arg av i) k
                     \<and> close_off (arg av i) k < length (arg av i)
                     \<and> av ! i ! close_off (arg av i) k = CHR 0x22
                     \<and> ?s ! i = (av ! i)[close_off (arg av i) k := NUL]"
      unfolding arg_def u .
    with True t show ?thesis by simp
  qed
  show ?thesis
    unfolding s using True len each by simp
qed

theorem frame_witness:
  "snd (call (\<lambda>s. 0 :: int) Args_bool ''-n|--name''
          (args_parse [''prog'', ''--name='' @ [CHR 0x22] @ ''a b'' @ [CHR 0x22] @ ''c'', ''x'']))
     = args_parse [''prog'', ''--name='' @ [CHR 0x22] @ ''a b'' @ [CHR 0x22] @ ''c'', ''x'']
   \<and> length (snd (call (\<lambda>s. 0 :: int) Args_string ''-n|--name''
          (args_parse [''prog'', ''--name='' @ [CHR 0x22] @ ''a b'' @ [CHR 0x22] @ ''c'', ''x'']))) = 3
   \<and> snd (call (\<lambda>s. 0 :: int) Args_string ''-n|--name''
          (args_parse [''prog'', ''--name='' @ [CHR 0x22] @ ''a b'' @ [CHR 0x22] @ ''c'', ''x''])) ! 2
     = ''x'' @ [NUL]
   \<and> snd (call (\<lambda>s. 0 :: int) Args_string ''-n|--name''
          (args_parse [''prog'', ''--name='' @ [CHR 0x22] @ ''a b'' @ [CHR 0x22] @ ''c'', ''x''])) ! 1
     = ''--name='' @ [CHR 0x22] @ ''a b'' @ [NUL] @ ''c'' @ [NUL]"
proof -
  define av where
    "av = args_parse [''prog'', ''--name='' @ [CHR 0x22] @ ''a b'' @ [CHR 0x22] @ ''c'', ''x'']"
  define spec where "spec = ''-n|--name''"
  define atof where "atof = (\<lambda>s :: string. 0 :: int)"
  have w: "wf_store av" unfolding av_def by code_simp
  have l: "length av = 3" by (simp add: av_def args_parse_def)
  have f: "flags_of spec = [''-n'', ''--name'']" unfolding spec_def by code_simp
  have a2: "arg av 2 = ''x''" and b2: "av ! 2 = ''x'' @ [NUL]" unfolding av_def by code_simp+
  note c = frame [OF w, of Args_bool atof spec]
  have r1: "snd (call atof Args_bool spec av) = av"
    using c [THEN conjunct1] by simp
  note d = frame [OF w, of Args_string atof spec]
  have r2: "length (snd (call atof Args_string spec av)) = 3"
    using d [THEN conjunct2, THEN conjunct1] l by simp
  have "\<not> (\<exists>flag \<in> set (flags_of spec). strncmp_eq (arg av 2) flag)"
    unfolding f a2 by (simp add: strncmp_eq_def)
  moreover have "(2::nat) < length av" by (simp add: l)
  ultimately have "snd (call atof Args_string spec av) ! 2 = av ! 2"
    using d [THEN conjunct2, THEN conjunct2, rule_format, of 2] by blast
  then have r3: "snd (call atof Args_string spec av) ! 2 = ''x'' @ [NUL]"
    unfolding b2 .
  have r4: "snd (call atof Args_string spec av) ! 1
     = ''--name='' @ [CHR 0x22] @ ''a b'' @ [NUL] @ ''c'' @ [NUL]"
    unfolding av_def spec_def atof_def by code_simp
  from r1 r2 r3 r4 show ?thesis
    unfolding av_def spec_def atof_def by (intro conjI)
qed

section \<open>C9: the same query twice\<close>

text \<open>
  C9, as amended.  The specification says that a query made twice in a row gives the same
  result, the string query included.  That fails for \<open>args_string\<close> when an alias token holds an
  \<open>=\<close> followed by a double quote: the quote erased by the first call changes which
  arguments the token is equal to, or a prefix of, in the second call
  (\<open>idempotence_counterexample\<close>: the first call returns \<open>v\<close>, the second \<open>next\<close>).
  What holds: for a store of terminated strings, the second call of \<open>args_bool\<close>,
  \<open>args_int\<close> or \<open>args_float\<close> returns what the first returned; so does the second call
  of \<open>args_string\<close>, with the same pointer and the same store (hence the same string),
  when no alias token of the query string holds an \<open>=\<close> followed by a double quote.
\<close>

theorem idempotence_of_queries:
  fixes atof :: "string \<Rightarrow> 'd::zero"
  assumes "wf_store av"
    and "q = Args_string \<longrightarrow> (\<forall>flag \<in> set (flags_of spec). \<not> has_eq_quote flag)"
  shows "call atof q spec (snd (call atof q spec av)) = call atof q spec av"
proof (cases q)
  case Args_string
  with assms(2) have "\<forall>flag \<in> set (flags_of spec). \<not> has_eq_quote flag" by simp
  with assms(1) have "args_string spec (snd (args_string spec av)) = args_string spec av"
    by (rule args_string_twice)
  with Args_string show ?thesis
    by (simp add: call_def case_prod_beta)
qed (simp_all add: call_def)

theorem idempotence_of_queries_witness:
  "call (\<lambda>s. 0 :: int) Args_string ''-n|--name''
     (snd (call (\<lambda>s. 0 :: int) Args_string ''-n|--name''
        (args_parse [''prog'', ''--name='' @ [CHR 0x22] @ ''a b'' @ [CHR 0x22] @ ''c'', ''x''])))
   = call (\<lambda>s. 0 :: int) Args_string ''-n|--name''
        (args_parse [''prog'', ''--name='' @ [CHR 0x22] @ ''a b'' @ [CHR 0x22] @ ''c'', ''x''])"
proof -
  define av where
    "av = args_parse [''prog'', ''--name='' @ [CHR 0x22] @ ''a b'' @ [CHR 0x22] @ ''c'', ''x'']"
  define spec where "spec = ''-n|--name''"
  have w: "wf_store av" unfolding av_def by code_simp
  have f: "flags_of spec = [''-n'', ''--name'']" unfolding spec_def by code_simp
  have e: "\<not> has_eq_quote ''-n''" "\<not> has_eq_quote ''--name''" by code_simp+
  have h: "Args_string = Args_string \<longrightarrow> (\<forall>flag \<in> set (flags_of spec). \<not> has_eq_quote flag)"
    unfolding f using e by simp
  show ?thesis
    using idempotence_of_queries [OF w h, of "\<lambda>s. 0 :: int"] unfolding av_def spec_def .
qed

theorem idempotence_counterexample:
  "string_result (''k='' @ [CHR 0x22] @ ''v'')
     (args_parse [''prog'', ''k='' @ [CHR 0x22] @ ''v'' @ [CHR 0x22] @ ''w'', ''next'']) = Some ''v''
   \<and> string_result (''k='' @ [CHR 0x22] @ ''v'')
     (snd (args_string (''k='' @ [CHR 0x22] @ ''v'')
        (args_parse [''prog'', ''k='' @ [CHR 0x22] @ ''v'' @ [CHR 0x22] @ ''w'', ''next''])))
     = Some ''next''
   \<and> fst (args_string (''k='' @ [CHR 0x22] @ ''v'')
        (args_parse [''prog'', ''k='' @ [CHR 0x22] @ ''v'' @ [CHR 0x22] @ ''w'', ''next'']))
     = Some (1, 3)
   \<and> fst (args_string (''k='' @ [CHR 0x22] @ ''v'')
       (snd (args_string (''k='' @ [CHR 0x22] @ ''v'')
        (args_parse [''prog'', ''k='' @ [CHR 0x22] @ ''v'' @ [CHR 0x22] @ ''w'', ''next'']))))
     = Some (2, 0)"
  by code_simp

section \<open>C10: an undecided suffix in the \<open>=\<close> form of the boolean query\<close>

text \<open>
  C10.  At an argument that has the alias token as a proper prefix and holds an \<open>=\<close>, with
  a suffix after the first \<open>=\<close> that is neither a truthy nor a falsy word, the loop body of
  \<open>args_bool\<close> does not return: the argument is not taken as bare presence and the scan
  goes on.  When no other argument begins with an alias token, and no other alias token
  begins this argument, the query is false; so it is on \<open>--flag=maybe\<close> alone.
\<close>

theorem args_bool_eq_form_undecided:
  assumes "arg av i \<noteq> flag" and "strncmp_eq (arg av i) flag"
    and "strchr (arg av i) (CHR ''='') = Some k"
    and "drop (k + 1) (arg av i) \<notin> set true_values"
    and "drop (k + 1) (arg av i) \<notin> set false_values"
  shows "bool_body flag av i = None
    \<and> ((\<forall>g \<in> set (flags_of spec). \<forall>m. 1 \<le> m \<and> m < length av \<and> m \<noteq> i \<longrightarrow> \<not> strncmp_eq (arg av m) g)
        \<and> (\<forall>g \<in> set (flags_of spec). g \<noteq> flag \<longrightarrow> \<not> strncmp_eq (arg av i) g)
        \<longrightarrow> args_bool spec av = False)"
proof -
  have body: "bool_body flag av i = None"
    using assms by (simp add: bool_body_eq_form)
  have "args_bool spec av = False"
    if "\<forall>g \<in> set (flags_of spec). \<forall>m. 1 \<le> m \<and> m < length av \<and> m \<noteq> i \<longrightarrow> \<not> strncmp_eq (arg av m) g"
      and "\<forall>g \<in> set (flags_of spec). g \<noteq> flag \<longrightarrow> \<not> strncmp_eq (arg av i) g"
    unfolding args_bool_def
    by (rule bool_none_decides) (rule bool_body_other_flag [OF that body])
  with body show ?thesis by blast
qed

theorem args_bool_eq_form_undecided_witness:
  "bool_body ''--flag'' (args_parse [''prog'', ''--flag=maybe'']) 1 = None
   \<and> args_bool ''--flag'' (args_parse [''prog'', ''--flag=maybe'']) = False"
proof -
  let ?av = "args_parse [''prog'', ''--flag=maybe'']"
  have h: "arg ?av 1 \<noteq> ''--flag''" "strncmp_eq (arg ?av 1) ''--flag''"
    "strchr (arg ?av 1) (CHR ''='') = Some 6"
    "drop (6 + 1) (arg ?av 1) \<notin> set true_values"
    "drop (6 + 1) (arg ?av 1) \<notin> set false_values"
    by code_simp+
  have f: "flags_of ''--flag'' = [''--flag'']" by code_simp
  have l: "length ?av = 2" by (simp add: args_parse_def)
  have o: "\<forall>g \<in> set (flags_of ''--flag''). \<forall>m. 1 \<le> m \<and> m < length ?av \<and> m \<noteq> 1
             \<longrightarrow> \<not> strncmp_eq (arg ?av m) g"
    unfolding l by auto
  show ?thesis
    using args_bool_eq_form_undecided [OF h, of "''--flag''"] o f by simp
qed

end
